theory Spec2Isabelle
  imports Main
begin

section \<open>A migrator of tables between two MySQL databases\<close>

text \<open>
  The repository copies the rows of a list of tables from a source database to a target
  database. Two of its parts are modelled here.

  \<^item> The orderer, \<open>getMigrationOrder\<close> with its closure \<open>visit\<close>, of the class
    \<open>DatabaseMigrator\<close> in its earlier form: it reads the foreign keys among the tables and
    walks the resulting graph depth first.
  \<^item> The engine, \<open>migrateTable\<close> and \<open>migrateTables\<close> of \<open>helper/migrator.js\<close> with the
    functions of \<open>dbUtils/dbUtils.js\<close> they call: per table, the schemas are compared, the
    target is backed up and truncated, and the rows are copied chunk by chunk.

  The code is asynchronous but awaits every call before the next, so the model is
  sequential, with one exception: the inserts of a chunk are all handed to the pool before
  any is awaited (see \<open>insertPromises\<close> and \<open>Promise_all\<close>). An exception thrown is a value
  \<open>Inl\<close> of a sum type, and every \<open>try\<close>, \<open>catch\<close> and \<open>finally\<close> is written out. Numbers are
  integers: the chunk size comes from \<open>parseInt\<close>, and a count of rows stays far below the
  range in which a JavaScript number stops being exact. The servers are left arbitrary:
  they may answer any statement with an error.
\<close>

subsection \<open>The table orderer (\<open>getMigrationOrder\<close>)\<close>

text \<open>
  \<open>getMigrationOrder(connection, tables)\<close> asks the source server, for every table of the
  working set, which foreign keys reference that table, builds a
  \<open>Map<string, Set<string>>\<close> and walks it depth first.

  A row of \<open>INFORMATION_SCHEMA.KEY_COLUMN_USAGE\<close>: \<open>TABLE_NAME\<close> is the referencing
  (child) table, \<open>REFERENCED_TABLE_NAME\<close> the referenced (parent) table.
\<close>

record fk_row =
  TABLE_NAME :: string
  COLUMN_NAME :: string
  REFERENCED_TABLE_NAME :: string
  REFERENCED_COLUMN_NAME :: string

text \<open>
  What can stop \<open>getMigrationOrder\<close>: the metadata query is rejected by the driver, a
  \<open>Map.get\<close> answers \<open>undefined\<close> and the code dereferences it, or the recursion of
  \<open>visit\<close> needs more frames than the call stack has.
\<close>

datatype order_failure = QueryError string | TypeError | StackOverflow

text \<open>
  The connection, as far as the orderer uses it: the answer of \<open>connection.execute\<close> to
  the foreign-key query for a referenced table, either the driver's error message or the
  rows.
\<close>

type_synonym fk_connection = "string \<Rightarrow> string + fk_row list"

definition getForeignKeyDependencies :: "fk_connection \<Rightarrow> string \<Rightarrow> order_failure + fk_row list" where
  "getForeignKeyDependencies connection tableName =
     (case connection tableName of
        Inl message \<Rightarrow> Inl (QueryError message)
      | Inr foreignKeys \<Rightarrow> Inr foreignKeys)"

text \<open>
  A server whose constraint catalogue is the given list of rows answers the query
  \<open>WHERE REFERENCED_TABLE_NAME = ?\<close> with the matching rows, in catalogue order.
\<close>

definition catalogue :: "fk_row list \<Rightarrow> fk_connection" where
  "catalogue rows tableName = Inr (filter (\<lambda>r. REFERENCED_TABLE_NAME r = tableName) rows)"

definition references :: "string \<Rightarrow> string \<Rightarrow> fk_row" where
  "references child parent =
     \<lparr>TABLE_NAME = child, COLUMN_NAME = parent @ ''_id'',
      REFERENCED_TABLE_NAME = parent, REFERENCED_COLUMN_NAME = ''id''\<rparr>"

text \<open>
  A JavaScript \<open>Set\<close> of strings is the list of its members in insertion order;
  \<open>add\<close> appends a member that is not there yet. The \<open>Map\<close> is a partial function.
\<close>

type_synonym graph = "string \<rightharpoonup> string list"

definition set_add :: "string list \<Rightarrow> string \<Rightarrow> string list" where
  "set_add members x = (if x \<in> set members then members else members @ [x])"

text \<open>First loop: \<open>dependencyGraph.set(table, new Set())\<close> for every table.\<close>

definition init_graph :: "string list \<Rightarrow> graph" where
  "init_graph tables = fold (\<lambda>table g. g(table \<mapsto> [])) tables Map.empty"

text \<open>
  Inner loop over the rows answered for \<open>table\<close>:
  \<open>if (tables.includes(fk.TABLE_NAME)) dependencyGraph.get(fk.TABLE_NAME).add(table)\<close>.
\<close>

fun add_foreign_keys :: "string list \<Rightarrow> string \<Rightarrow> fk_row list \<Rightarrow> graph \<Rightarrow> order_failure + graph" where
  "add_foreign_keys tables table [] g = Inr g"
| "add_foreign_keys tables table (fk # fks) g =
     (if TABLE_NAME fk \<in> set tables then
        (case g (TABLE_NAME fk) of
           None \<Rightarrow> Inl TypeError
         | Some deps \<Rightarrow> add_foreign_keys tables table fks (g(TABLE_NAME fk \<mapsto> set_add deps table)))
      else add_foreign_keys tables table fks g)"

text \<open>Second loop: one query per table, then the inner loop.\<close>

fun collect_dependencies :: "fk_connection \<Rightarrow> string list \<Rightarrow> string list \<Rightarrow> graph \<Rightarrow> order_failure + graph" where
  "collect_dependencies connection tables [] g = Inr g"
| "collect_dependencies connection tables (table # rest) g =
     (case getForeignKeyDependencies connection table of
        Inl e \<Rightarrow> Inl e
      | Inr foreignKeys \<Rightarrow>
          (case add_foreign_keys tables table foreignKeys g of
             Inl e \<Rightarrow> Inl e
           | Inr g' \<Rightarrow> collect_dependencies connection tables rest g'))"

text \<open>
  The recursive closure \<open>visit\<close>, with the two variables it mutates (\<open>visited\<close> and
  \<open>order\<close>) passed through. The first argument is the number of stack frames still
  available: every call of \<open>visit\<close> takes one. \<open>order.unshift(table)\<close> puts the table in
  front. \<open>visit_each\<close> is the \<open>for ... of\<close> loop around the calls, both the one over
  \<open>dependencyGraph.get(table)\<close> inside \<open>visit\<close> and the one over \<open>tables\<close> at the end of
  \<open>getMigrationOrder\<close>.
\<close>

fun visit :: "nat \<Rightarrow> graph \<Rightarrow> string \<Rightarrow> string set \<times> string list \<Rightarrow> order_failure + string set \<times> string list"
  and visit_each :: "nat \<Rightarrow> graph \<Rightarrow> string list \<Rightarrow> string set \<times> string list \<Rightarrow> order_failure + string set \<times> string list"
  where
  "visit 0 g table (visited, order) = Inl StackOverflow"
| "visit (Suc frames) g table (visited, order) =
     (if table \<in> visited then Inr (visited, order)
      else
        (case g table of
           None \<Rightarrow> Inl TypeError
         | Some deps \<Rightarrow>
             (case visit_each frames g deps (insert table visited, order) of
                Inl e \<Rightarrow> Inl e
              | Inr (visited', order') \<Rightarrow> Inr (visited', table # order'))))"
| "visit_each frames g [] walk = Inr walk"
| "visit_each frames g (dep # deps) walk =
     (case visit frames g dep walk of
        Inl e \<Rightarrow> Inl e
      | Inr walk' \<Rightarrow> visit_each frames g deps walk')"

definition getMigrationOrder :: "nat \<Rightarrow> fk_connection \<Rightarrow> string list \<Rightarrow> order_failure + string list" where
  "getMigrationOrder frames connection tables =
     (case collect_dependencies connection tables tables (init_graph tables) of
        Inl e \<Rightarrow> Inl e
      | Inr dependencyGraph \<Rightarrow>
          (case visit_each frames dependencyGraph tables ({}, []) of
             Inl e \<Rightarrow> Inl e
           | Inr (visited, order) \<Rightarrow> Inr order))"

text \<open>
  The foreign-key relation the orderer sees: \<open>(child, parent)\<close> when the query for
  \<open>parent\<close> answers a row whose \<open>TABLE_NAME\<close> is \<open>child\<close>, both in the working set. The
  working set has a cyclic dependency when some table reaches itself along it.
\<close>

definition fk_edges :: "fk_connection \<Rightarrow> string list \<Rightarrow> (string \<times> string) set" where
  "fk_edges connection tables =
     {(child, parent). child \<in> set tables \<and> parent \<in> set tables \<and>
        (\<exists>rows. connection parent = Inr rows \<and> child \<in> TABLE_NAME ` set rows)}"

definition has_cycle :: "fk_connection \<Rightarrow> string list \<Rightarrow> bool" where
  "has_cycle connection tables \<longleftrightarrow> (\<exists>t. (t, t) \<in> (fk_edges connection tables)\<^sup>+)"

text \<open>
  Invariants of the walk. A graph is well formed over the working set \<open>V\<close> when its keys
  are the tables of \<open>V\<close> and every member of every set is a table of \<open>V\<close>. A walk leads from
  \<open>before\<close> to \<open>after\<close> when \<open>after\<close> has the newly visited tables, each once, in front of the
  old order.
\<close>

definition well_formed :: "string set \<Rightarrow> graph \<Rightarrow> bool" where
  "well_formed V g \<longleftrightarrow> dom g = V \<and> (\<forall>t deps. g t = Some deps \<longrightarrow> set deps \<subseteq> V)"

definition walked :: "string set \<Rightarrow> string set \<times> string list \<Rightarrow> string set \<times> string list \<Rightarrow> bool" where
  "walked V before after \<longleftrightarrow>
     (\<exists>new. snd after = new @ snd before \<and> distinct new \<and> set new = fst after - fst before)
     \<and> fst before \<subseteq> fst after \<and> fst after \<subseteq> V"

text \<open>
  For the order of the result: the relation a graph stores (\<open>(c, p)\<close> when \<open>p\<close> is a member
  of the set of \<open>c\<close>), \<open>x\<close> standing before \<open>y\<close> in a list, and the invariant of the
  walk that every table already in \<open>order\<close> stands before all the tables it references.
\<close>

definition deps_rel :: "graph \<Rightarrow> (string \<times> string) set" where
  "deps_rel g = {(c, p). \<exists>deps. g c = Some deps \<and> p \<in> set deps}"

definition precedes :: "string list \<Rightarrow> string \<Rightarrow> string \<Rightarrow> bool" where
  "precedes xs x y \<longleftrightarrow> (\<exists>front back. xs = front @ x # back \<and> y \<in> set back)"

definition finished :: "graph \<Rightarrow> string set \<times> string list \<Rightarrow> bool" where
  "finished g walk \<longleftrightarrow>
     set (snd walk) \<subseteq> fst walk \<and>
     (\<forall>x \<in> set (snd walk). \<forall>y. (x, y) \<in> deps_rel g \<longrightarrow> precedes (snd walk) x y)"

subsection \<open>The engine: JavaScript objects used as dictionaries\<close>

text \<open>
  \<open>getTableSchema\<close> and \<open>migrateTables\<close> fill a plain object (\<open>{}\<close>) by assignments
  \<open>obj[key] = value\<close>, where every value is itself an object. Such an object has its own
  properties, in creation order, and a prototype. The prototype is \<open>Object.prototype\<close>
  until a value is assigned to the key \<open>__proto__\<close>: that assignment creates no property
  but makes the value the prototype (\<open>proto\<close> is then \<open>Some\<close> of it).
\<close>

record 'v js_object =
  own :: "(string \<times> 'v) list"
  proto :: "'v option"

definition empty_object :: "'v js_object" where
  "empty_object = \<lparr>own = [], proto = None\<rparr>"

text \<open>\<open>obj[key] = value\<close>: an existing own property keeps its place.\<close>

definition obj_set :: "'v js_object \<Rightarrow> string \<Rightarrow> 'v \<Rightarrow> 'v js_object" where
  "obj_set obj key v =
     (if key = ''__proto__'' then obj\<lparr>proto := Some v\<rparr>
      else if key \<in> fst ` set (own obj)
        then obj\<lparr>own := map (\<lambda>(k, old). if k = key then (k, v) else (k, old)) (own obj)\<rparr>
        else obj\<lparr>own := own obj @ [(key, v)]\<rparr>)"

text \<open>The properties every object inherits from \<open>Object.prototype\<close>; all are truthy.\<close>

definition object_prototype_members :: "string list" where
  "object_prototype_members =
     [''constructor'', ''__defineGetter__'', ''__defineSetter__'', ''hasOwnProperty'',
      ''__lookupGetter__'', ''__lookupSetter__'', ''isPrototypeOf'', ''propertyIsEnumerable'',
      ''toString'', ''valueOf'', ''__proto__'', ''toLocaleString'']"

text \<open>
  \<open>Object.keys\<close> lists the own properties: first those whose key is an array index (a
  decimal numeral without leading zero, below \<open>2^32 - 1\<close>) in ascending numeric order,
  then the others in creation order.
\<close>

definition digit_of :: "char \<Rightarrow> nat option" where
  "digit_of c =
     map_of [(CHR ''0'', 0), (CHR ''1'', 1), (CHR ''2'', 2), (CHR ''3'', 3), (CHR ''4'', 4),
             (CHR ''5'', 5), (CHR ''6'', 6), (CHR ''7'', 7), (CHR ''8'', 8), (CHR ''9'', 9)] c"

fun decimal_value :: "string \<Rightarrow> nat \<Rightarrow> nat option" where
  "decimal_value [] acc = Some acc"
| "decimal_value (c # cs) acc =
     (case digit_of c of None \<Rightarrow> None | Some k \<Rightarrow> decimal_value cs (10 * acc + k))"

definition array_index :: "string \<Rightarrow> nat option" where
  "array_index key =
     (if key = [] \<or> (hd key = CHR ''0'' \<and> tl key \<noteq> []) then None
      else case decimal_value key 0 of
             None \<Rightarrow> None
           | Some n \<Rightarrow> if n < 4294967295 then Some n else None)"

definition obj_keys :: "'v js_object \<Rightarrow> string list" where
  "obj_keys obj =
     sort_key (\<lambda>key. case array_index key of Some n \<Rightarrow> n | None \<Rightarrow> 0)
       (filter (\<lambda>key. array_index key \<noteq> None) (map fst (own obj)))
     @ filter (\<lambda>key. array_index key = None) (map fst (own obj))"

subsection \<open>The servers and the state of a run\<close>

text \<open>
  The two connection pools of the migrator, \<open>this.sourcePool\<close> and \<open>this.targetPool\<close>.
  \<open>migrateTables\<close> creates both before its loop, so they exist whenever it calls
  \<open>migrateTable\<close>; a call of \<open>migrateTable\<close> on a migrator whose pools are still \<open>null\<close> is not
  modelled.
\<close>

datatype pool = SourcePool | TargetPool

text \<open>
  The SQL statements the code builds from its templates, with the values spliced in or
  bound to the placeholders:
  \<^item> \<open>SET FOREIGN_KEY_CHECKS = 0\<close> or \<open>1\<close>;
  \<^item> \<open>DESCRIBE t\<close>;
  \<^item> \<open>CREATE TABLE b LIKE t\<close>;
  \<^item> \<open>INSERT INTO b SELECT * FROM t\<close>;
  \<^item> \<open>TRUNCATE TABLE t\<close>;
  \<^item> \<open>INSERT INTO t (columns) VALUES (?, ...)\<close> with the bound values;
  \<^item> \<open>SELECT columns FROM t LIMIT ?, ?\<close> with offset and row count.
  A value of a result row is \<open>NULL\<close> or a text; a row is the list of its columns with
  their values, and \<open>row[col]\<close> is \<open>undefined\<close> (\<open>None\<close>) for a column it does not have.
\<close>

datatype cell = Null | Text string

type_synonym row = "(string \<times> cell) list"

datatype statement =
    SetForeignKeyChecks bool
  | Describe string
  | CreateTableLike string string
  | InsertSelectAll string string
  | TruncateTable string
  | InsertRow string "string list" "cell option list"
  | SelectChunk "string list" string int int

text \<open>
  The outside world is a state machine of an arbitrary state type \<open>'w\<close>: \<open>run\<close> is the
  answer of \<open>pool.execute\<close> to a statement, the driver's error message or the rows, with
  the world after the statement; \<open>clock\<close> is \<open>new Date().toISOString()\<close>; \<open>close\<close> is
  \<open>pool.end()\<close>. Statements handed to a pool together are answered in an order of the
  world's choosing: when several of them fail, \<open>settles_first\<close> numbers the failure that
  is answered before the others (counted among the failures in the order they were handed
  over, and taken modulo their number). Nothing is assumed of these four, so every
  failure a server can produce, in whatever order, is covered.
\<close>

record 'w driver =
  run :: "pool \<Rightarrow> statement \<Rightarrow> 'w \<Rightarrow> (string + row list) \<times> 'w"
  clock :: "'w \<Rightarrow> string"
  close :: "pool \<Rightarrow> 'w \<Rightarrow> (string + unit) \<times> 'w"
  settles_first :: "'w \<Rightarrow> nat"

text \<open>
  The state threaded through the code: the world, the statements handed to the pools so
  far (in that order, each with the pool it went to and the error message it was answered
  with, if any), and the lines the logger has written (\<open>console.log\<close> and
  \<open>console.error\<close>).
\<close>

datatype console_line = Out string | Err string

type_synonym entry = "pool \<times> statement \<times> string option"

record 'w state =
  world :: 'w
  trace :: "entry list"
  console :: "console_line list"

definition failure_of :: "string + 'a \<Rightarrow> string option" where
  "failure_of reply = (case reply of Inl message \<Rightarrow> Some message | Inr _ \<Rightarrow> None)"

definition execute :: "'w driver \<Rightarrow> pool \<Rightarrow> statement \<Rightarrow> 'w state \<Rightarrow> (string + row list) \<times> 'w state" where
  "execute d connection sql s =
     (case run d connection sql (world s) of
        (reply, w) \<Rightarrow>
          (reply, s\<lparr>world := w, trace := trace s @ [(connection, sql, failure_of reply)]\<rparr>))"

text \<open>\<open>logger.js\<close>: both methods write to the console and cannot fail.\<close>

definition logger_log :: "string \<Rightarrow> 'w state \<Rightarrow> 'w state" where
  "logger_log message s = s\<lparr>console := console s @ [Out message]\<rparr>"

definition logger_error :: "string \<Rightarrow> 'w state \<Rightarrow> 'w state" where
  "logger_error message s = s\<lparr>console := console s @ [Err message]\<rparr>"

text \<open>A count spliced into a template string: its decimal numeral.\<close>

fun decimal_string :: "nat \<Rightarrow> string" where
  "decimal_string n =
     (if n < 10 then [''0123456789'' ! n]
      else decimal_string (n div 10) @ [''0123456789'' ! (n mod 10)])"

declare decimal_string.simps [simp del]

subsection \<open>\<open>dbUtils.js\<close>\<close>

text \<open>
  The descriptor \<open>getTableSchema\<close> stores for a column:
  \<open>{type: row.Type, nullable: row.Null === "YES", default: row.Default, key: row.Key}\<close>.
\<close>

record column =
  col_type :: "cell option"
  nullable :: bool
  col_default :: "cell option"
  col_key :: "cell option"

type_synonym TableSchema = "column js_object"

text \<open>A value used as a property key is converted to a string.\<close>

definition property_key :: "cell option \<Rightarrow> string" where
  "property_key v = (case v of None \<Rightarrow> ''undefined'' | Some Null \<Rightarrow> ''null'' | Some (Text t) \<Rightarrow> t)"

definition schema_add :: "row \<Rightarrow> TableSchema \<Rightarrow> TableSchema" where
  "schema_add r acc =
     obj_set acc (property_key (map_of r ''Field''))
       \<lparr>col_type = map_of r ''Type'',
        nullable = (map_of r ''Null'' = Some (Text ''YES'')),
        col_default = map_of r ''Default'',
        col_key = map_of r ''Key''\<rparr>"

definition getTableSchema :: "'w driver \<Rightarrow> pool \<Rightarrow> string \<Rightarrow> 'w state \<Rightarrow> (string + TableSchema) \<times> 'w state" where
  "getTableSchema d connection tableName s =
     (case execute d connection (Describe tableName) s of
        (Inl message, s1) \<Rightarrow>
          (Inl (''Error getting schema for table '' @ tableName @ '': '' @ message), s1)
      | (Inr rows, s1) \<Rightarrow> (Inr (fold schema_add rows empty_object), s1))"

definition disableForeignKeyChecks :: "'w driver \<Rightarrow> pool \<Rightarrow> 'w state \<Rightarrow> (string + unit) \<times> 'w state" where
  "disableForeignKeyChecks d connection s =
     (case execute d connection (SetForeignKeyChecks False) s of
        (Inl message, s1) \<Rightarrow> (Inl message, s1)
      | (Inr rows, s1) \<Rightarrow> (Inr (), s1))"

definition enableForeignKeyChecks :: "'w driver \<Rightarrow> pool \<Rightarrow> 'w state \<Rightarrow> (string + unit) \<times> 'w state" where
  "enableForeignKeyChecks d connection s =
     (case execute d connection (SetForeignKeyChecks True) s of
        (Inl message, s1) \<Rightarrow> (Inl message, s1)
      | (Inr rows, s1) \<Rightarrow> (Inr (), s1))"

text \<open>
  \<open>backupTable\<close>. The timestamp is the ISO time without \<open>-\<close> and \<open>:\<close>, up to the first
  \<open>.\<close>; both statements are in one \<open>try\<close>, whose \<open>catch\<close> wraps the driver's message.
\<close>

definition backup_timestamp :: "string \<Rightarrow> string" where
  "backup_timestamp iso_time =
     takeWhile (\<lambda>c. c \<noteq> CHR ''.'') (filter (\<lambda>c. c \<noteq> CHR ''-'' \<and> c \<noteq> CHR '':'') iso_time)"

definition backupTable :: "'w driver \<Rightarrow> pool \<Rightarrow> string \<Rightarrow> 'w state \<Rightarrow> (string + string) \<times> 'w state" where
  "backupTable d connection tableName s =
     (let timestamp = backup_timestamp (clock d (world s));
          backupTableName = tableName @ ''_backup_'' @ timestamp
      in case execute d connection (CreateTableLike backupTableName tableName) s of
           (Inl message, s1) \<Rightarrow>
             (Inl (''Error creating backup for table '' @ tableName @ '': '' @ message), s1)
         | (Inr created, s1) \<Rightarrow>
             (case execute d connection (InsertSelectAll backupTableName tableName) s1 of
                (Inl message, s2) \<Rightarrow>
                  (Inl (''Error creating backup for table '' @ tableName @ '': '' @ message), s2)
              | (Inr copied, s2) \<Rightarrow>
                  (Inr backupTableName, logger_log (''Created backup table: '' @ backupTableName) s2)))"

subsection \<open>\<open>migrateTable\<close>\<close>

record MigrationOptions =
  truncateTarget :: bool
  chunkSize :: int
  ignoreColumns :: "string list"
  foreignKeyStrategy :: string
  dryRun :: bool

record MigrationResult =
  table :: string
  success :: bool
  rowsMigrated :: nat
  errors :: "string list"

text \<open>
  The test \<open>targetSchema[col]\<close> of the column filter. The lookup finds an own property (a
  descriptor object, truthy), else a member of the prototype installed by a column
  called \<open>__proto__\<close> (a descriptor: its \<open>type\<close>, \<open>nullable\<close>, \<open>default\<close> and \<open>key\<close>, truthy
  unless \<open>undefined\<close>, \<open>null\<close>, \<open>false\<close> or empty), else a member of \<open>Object.prototype\<close>.
\<close>

definition cell_truthy :: "cell option \<Rightarrow> bool" where
  "cell_truthy v = (case v of None \<Rightarrow> False | Some Null \<Rightarrow> False | Some (Text t) \<Rightarrow> t \<noteq> [])"

definition column_member_truthy :: "column \<Rightarrow> string \<Rightarrow> bool" where
  "column_member_truthy c key =
     (if key = ''type'' then cell_truthy (col_type c)
      else if key = ''nullable'' then nullable c
      else if key = ''default'' then cell_truthy (col_default c)
      else if key = ''key'' then cell_truthy (col_key c)
      else False)"

definition schema_truthy :: "TableSchema \<Rightarrow> string \<Rightarrow> bool" where
  "schema_truthy schema col =
     (if col \<in> fst ` set (own schema) then True
      else if (case proto schema of None \<Rightarrow> False | Some c \<Rightarrow> column_member_truthy c col) then True
      else col \<in> set object_prototype_members)"

text \<open>
  Lines 73 to 75:
  \<open>Object.keys(sourceSchema).filter((col) => targetSchema[col] && !ignoreColumns.includes(col))\<close>.
\<close>

definition common_columns :: "TableSchema \<Rightarrow> TableSchema \<Rightarrow> string list \<Rightarrow> string list" where
  "common_columns sourceSchema targetSchema ignored =
     filter (\<lambda>col. schema_truthy targetSchema col \<and> col \<notin> set ignored) (obj_keys sourceSchema)"

text \<open>
  Lines 66 to 79 of the \<open>try\<close> block: the foreign-key checks are switched off, both schemas
  are read, the common columns are computed; an empty list is an error. The function
  returns the error message thrown, or the common columns.
\<close>

definition compare_schemas :: "'w driver \<Rightarrow> string \<Rightarrow> MigrationOptions \<Rightarrow> 'w state \<Rightarrow> (string + string list) \<times> 'w state" where
  "compare_schemas d tableName options s =
     (case (if foreignKeyStrategy options = ''disable'' \<and> \<not> dryRun options
            then disableForeignKeyChecks d TargetPool s else (Inr (), s)) of
        (Inl e, s1) \<Rightarrow> (Inl e, s1)
      | (Inr u, s1) \<Rightarrow>
          (case getTableSchema d SourcePool tableName s1 of
             (Inl e, s2) \<Rightarrow> (Inl e, s2)
           | (Inr sourceSchema, s2) \<Rightarrow>
               (case getTableSchema d TargetPool tableName s2 of
                  (Inl e, s3) \<Rightarrow> (Inl e, s3)
                | (Inr targetSchema, s3) \<Rightarrow>
                    (let commonColumns = common_columns sourceSchema targetSchema (ignoreColumns options)
                     in if commonColumns = []
                        then (Inl (''No common columns found for table '' @ tableName), s3)
                        else (Inr commonColumns, s3)))))"

text \<open>
  Lines 81 to 88: the backup unless this is a dry run, then the \<open>TRUNCATE\<close> when asked for
  and not a dry run.
\<close>

definition backup_and_truncate :: "'w driver \<Rightarrow> string \<Rightarrow> MigrationOptions \<Rightarrow> 'w state \<Rightarrow> (string + unit) \<times> 'w state" where
  "backup_and_truncate d tableName options s =
     (case (if \<not> dryRun options
            then (case backupTable d TargetPool tableName s of
                    (Inl e, s1) \<Rightarrow> (Inl e, s1)
                  | (Inr backupTableName, s1) \<Rightarrow> (Inr (), s1))
            else (Inr (), s)) of
        (Inl e, s1) \<Rightarrow> (Inl e, s1)
      | (Inr u, s1) \<Rightarrow>
          (if truncateTarget options \<and> \<not> dryRun options
           then (case execute d TargetPool (TruncateTable tableName) s1 of
                   (Inl e, s2) \<Rightarrow> (Inl e, s2)
                 | (Inr rows, s2) \<Rightarrow>
                     (Inr (), logger_log (''Truncated target table: '' @ tableName) s2))
           else (Inr (), s1)))"

text \<open>
  Lines 114 to 121. \<open>rows.map((row) => this.targetPool.execute(insertQuery, ...))\<close> hands
  one \<open>INSERT\<close> per row to the pool, in row order and all of them whatever becomes of the
  others: \<open>insertPromises\<close> is the list of their outcomes, in row order. The inserts run
  concurrently; the model lets the world take them in the order they were handed over.
\<close>

fun insertPromises :: "'w driver \<Rightarrow> string \<Rightarrow> string list \<Rightarrow> row list \<Rightarrow> 'w state
    \<Rightarrow> (string + row list) list \<times> 'w state" where
  "insertPromises d tableName insertColumns [] s = ([], s)"
| "insertPromises d tableName insertColumns (r # rows) s =
     (case execute d TargetPool (InsertRow tableName insertColumns (map (map_of r) insertColumns)) s of
        (reply, s1) \<Rightarrow>
          (case insertPromises d tableName insertColumns rows s1 of
             (replies, s2) \<Rightarrow> (reply # replies, s2)))"

text \<open>
  \<open>await Promise.all(insertPromises)\<close> goes on when every promise is fulfilled, and throws
  when one is rejected: the error thrown is that of the promise rejected first in time,
  which need not be the first of the list. The result is the message thrown, if any.
\<close>

definition rejections :: "(string + 'a) list \<Rightarrow> string list" where
  "rejections promises = List.map_filter failure_of promises"

definition Promise_all :: "'w driver \<Rightarrow> (string + 'a) list \<Rightarrow> 'w state \<Rightarrow> string option" where
  "Promise_all d promises s =
     (case rejections promises of
        [] \<Rightarrow> None
      | e # es \<Rightarrow> Some ((e # es) ! (settles_first d (world s) mod length (e # es))))"

text \<open>Lines 114 to 121 together: the inserts of one chunk, and the wait for them.\<close>

definition insert_rows :: "'w driver \<Rightarrow> string \<Rightarrow> string list \<Rightarrow> row list \<Rightarrow> 'w state
    \<Rightarrow> string option \<times> 'w state" where
  "insert_rows d tableName insertColumns rows s =
     (case insertPromises d tableName insertColumns rows s of
        (promises, s1) \<Rightarrow> (Promise_all d promises s1, s1))"

text \<open>
  Lines 98 to 130, the \<open>while (true)\<close> loop. It ends when a read is answered with no rows
  or something fails, which a server may never do: the first argument bounds the number
  of reads, and \<open>None\<close> says that the loop has not ended within them. The function returns
  what ended the loop (\<open>Inl\<close> the message of the error thrown) with \<open>result\<close> as it is then.
\<close>

fun transfer :: "nat \<Rightarrow> 'w driver \<Rightarrow> string \<Rightarrow> MigrationOptions \<Rightarrow> string list \<Rightarrow> int \<Rightarrow> MigrationResult \<Rightarrow> 'w state
    \<Rightarrow> ((string + unit) \<times> MigrationResult \<times> 'w state) option" where
  "transfer 0 d tableName options insertColumns offset result s = None"
| "transfer (Suc reads) d tableName options insertColumns offset result s =
     (case execute d SourcePool (SelectChunk insertColumns tableName offset (chunkSize options)) s of
        (Inl e, s1) \<Rightarrow> Some (Inl e, result, s1)
      | (Inr rows, s1) \<Rightarrow>
          if rows = [] then Some (Inr (), result, s1)
          else
            (case (if dryRun options
                   then (None, logger_log (''[Dry Run] Would migrate '' @ decimal_string (length rows)
                                             @ '' rows for table '' @ tableName) s1)
                   else insert_rows d tableName insertColumns rows s1) of
               (Some e, s2) \<Rightarrow> Some (Inl e, result, s2)
             | (None, s2) \<Rightarrow>
                 (let result' = result\<lparr>rowsMigrated := rowsMigrated result + length rows\<rparr>
                  in transfer reads d tableName options insertColumns (offset + chunkSize options) result'
                       (logger_log (''Migrated '' @ decimal_string (rowsMigrated result')
                                      @ '' rows for table '' @ tableName) s2))))"

text \<open>Lines 65 to 135: the whole \<open>try\<close> block.\<close>

definition migrateTable_try :: "nat \<Rightarrow> 'w driver \<Rightarrow> string \<Rightarrow> MigrationOptions \<Rightarrow> MigrationResult \<Rightarrow> 'w state
    \<Rightarrow> ((string + unit) \<times> MigrationResult \<times> 'w state) option" where
  "migrateTable_try reads d tableName options result s =
     (case compare_schemas d tableName options s of
        (Inl e, s1) \<Rightarrow> Some (Inl e, result, s1)
      | (Inr commonColumns, s1) \<Rightarrow>
          (case backup_and_truncate d tableName options s1 of
             (Inl e, s2) \<Rightarrow> Some (Inl e, result, s2)
           | (Inr u, s2) \<Rightarrow>
               (case transfer reads d tableName options commonColumns 0 result s2 of
                  None \<Rightarrow> None
                | Some (Inl e, result', s3) \<Rightarrow> Some (Inl e, result', s3)
                | Some (Inr u, result', s3) \<Rightarrow>
                    Some (Inr (), result'\<lparr>success := True\<rparr>,
                      logger_log (''Successfully migrated '' @ decimal_string (rowsMigrated result')
                                    @ '' rows for table '' @ tableName) s3))))"

text \<open>
  Lines 49 to 155. The \<open>catch\<close> block records the message and logs it; the \<open>finally\<close>
  block switches the foreign-key checks back on and only logs a failure to do so. The
  value is \<open>Inr\<close> the result returned, \<open>Inl\<close> being an exception that leaves \<open>migrateTable\<close>.
\<close>

definition migrateTable :: "nat \<Rightarrow> 'w driver \<Rightarrow> string \<Rightarrow> MigrationOptions \<Rightarrow> 'w state
    \<Rightarrow> ((string + MigrationResult) \<times> 'w state) option" where
  "migrateTable reads d tableName options s =
     (case migrateTable_try reads d tableName options
             \<lparr>table = tableName, success = False, rowsMigrated = 0, errors = []\<rparr> s of
        None \<Rightarrow> None
      | Some (outcome, result, s1) \<Rightarrow>
          (case (case outcome of
                   Inl message \<Rightarrow>
                     (result\<lparr>success := False, errors := errors result @ [message]\<rparr>,
                      logger_error (''Migration failed for table '' @ tableName @ '': '' @ message) s1)
                 | Inr u \<Rightarrow> (result, s1)) of
             (result', s2) \<Rightarrow>
               Some (Inr result',
                 (if foreignKeyStrategy options = ''disable'' \<and> \<not> dryRun options
                  then (case enableForeignKeyChecks d TargetPool s2 of
                          (Inl message, s3) \<Rightarrow>
                            logger_error (''Error re-enabling foreign key checks: '' @ message) s3
                        | (Inr u, s3) \<Rightarrow> s3)
                  else s2))))"

subsection \<open>\<open>migrateTables\<close>\<close>

text \<open>
  Lines 163 to 165, \<open>for (const table of tables) results[table] = await
  this.migrateTable(table, options)\<close>, and the whole function with its \<open>finally\<close> block,
  which closes the source pool and then the target pool: an error of \<open>end()\<close> leaves
  \<open>migrateTables\<close> in place of the results.
\<close>

fun migrate_each :: "nat \<Rightarrow> 'w driver \<Rightarrow> MigrationOptions \<Rightarrow> string list \<Rightarrow> MigrationResult js_object \<Rightarrow> 'w state
    \<Rightarrow> ((string + MigrationResult js_object) \<times> 'w state) option" where
  "migrate_each reads d options [] results s = Some (Inr results, s)"
| "migrate_each reads d options (t # tables) results s =
     (case migrateTable reads d t options s of
        None \<Rightarrow> None
      | Some (Inl e, s1) \<Rightarrow> Some (Inl e, s1)
      | Some (Inr result, s1) \<Rightarrow> migrate_each reads d options tables (obj_set results t result) s1)"

definition end_pool :: "'w driver \<Rightarrow> pool \<Rightarrow> 'w state \<Rightarrow> (string + unit) \<times> 'w state" where
  "end_pool d connection s =
     (case close d connection (world s) of (reply, w) \<Rightarrow> (reply, s\<lparr>world := w\<rparr>))"

definition migrateTables :: "nat \<Rightarrow> 'w driver \<Rightarrow> string list \<Rightarrow> MigrationOptions \<Rightarrow> 'w state
    \<Rightarrow> ((string + MigrationResult js_object) \<times> 'w state) option" where
  "migrateTables reads d tables options s =
     (case migrate_each reads d options tables empty_object s of
        None \<Rightarrow> None
      | Some (outcome, s1) \<Rightarrow>
          (case end_pool d SourcePool s1 of
             (Inl e, s2) \<Rightarrow> Some (Inl e, s2)
           | (Inr u, s2) \<Rightarrow>
               (case end_pool d TargetPool s2 of
                  (Inl e, s3) \<Rightarrow> Some (Inl e, s3)
                | (Inr u, s3) \<Rightarrow> Some (outcome, s3))))"

subsection \<open>Notions the statements about the engine use\<close>

text \<open>
  Of an entry of the trace: its statement, and whether the statement failed. A list of
  entries is clean when none failed.
\<close>

definition statement_of :: "entry \<Rightarrow> statement" where
  "statement_of e = fst (snd e)"

definition failed :: "entry \<Rightarrow> bool" where
  "failed e \<longleftrightarrow> snd (snd e) \<noteq> None"

definition clean :: "entry list \<Rightarrow> bool" where
  "clean es \<longleftrightarrow> list_all (\<lambda>e. \<not> failed e) es"

text \<open>
  Statements that only read; the two statements of the backup; the statements that change
  the rows of table \<open>t\<close> (\<open>TRUNCATE\<close> and \<open>INSERT ... VALUES\<close>).
\<close>

fun read_only :: "statement \<Rightarrow> bool" where
  "read_only (Describe t) = True"
| "read_only (SelectChunk cols t offset count) = True"
| "read_only q = False"

fun backup_statement :: "statement \<Rightarrow> bool" where
  "backup_statement (CreateTableLike b t) = True"
| "backup_statement (InsertSelectAll b t) = True"
| "backup_statement q = False"

fun writes_table :: "string \<Rightarrow> statement \<Rightarrow> bool" where
  "writes_table t (TruncateTable t') = (t' = t)"
| "writes_table t (InsertRow t' cols vals) = (t' = t)"
| "writes_table t q = False"

text \<open>
  The first failed statement of a list of entries, with the driver's message, not counting
  a failure to switch the foreign-key checks back on.
\<close>

fun first_error :: "entry list \<Rightarrow> (statement \<times> string) option" where
  "first_error [] = None"
| "first_error ((p, q, None) # es) = first_error es"
| "first_error ((p, q, Some message) # es) =
     (if q = SetForeignKeyChecks True then first_error es else Some (q, message))"

text \<open>
  The inserts of rows. When the first failed statement is an insert, the failed inserts of
  its chunk are the failed ones among the inserts that follow one another from it on;
  \<open>failed_inserts\<close> lists their messages, in the order the inserts were handed to the pool.
\<close>

fun insert_statement :: "statement \<Rightarrow> bool" where
  "insert_statement (InsertRow t cols vals) = True"
| "insert_statement q = False"

fun since_first_error :: "entry list \<Rightarrow> entry list" where
  "since_first_error [] = []"
| "since_first_error ((p, q, None) # es) = since_first_error es"
| "since_first_error ((p, q, Some message) # es) =
     (if q = SetForeignKeyChecks True then since_first_error es else (p, q, Some message) # es)"

definition failure_messages :: "entry list \<Rightarrow> string list" where
  "failure_messages es = List.map_filter (\<lambda>e. snd (snd e)) es"

definition failed_inserts :: "entry list \<Rightarrow> string list" where
  "failed_inserts new =
     failure_messages (takeWhile (\<lambda>e. insert_statement (statement_of e)) (since_first_error new))"

text \<open>
  The entries the loop over the chunks adds when it ends by a chunk of inserts of which
  some failed, \<open>e\<close> being the message of one of these: the first failed statement is an
  insert, only inserts follow it, and \<open>e\<close> is the message of a failed one among them.
\<close>

definition failed_chunk :: "string \<Rightarrow> entry list \<Rightarrow> bool" where
  "failed_chunk e new \<longleftrightarrow>
     (case first_error new of None \<Rightarrow> False | Some (q, m) \<Rightarrow> insert_statement q)
     \<and> list_all (\<lambda>x. insert_statement (statement_of x)) (since_first_error new)
     \<and> e \<in> set (failure_messages (since_first_error new))"

text \<open>
  The message of the error that reaches \<open>migrateTable\<close> when a statement fails with the
  driver's message \<open>message\<close>: \<open>getTableSchema\<close> and \<open>backupTable\<close> wrap it.
\<close>

fun raised_message :: "string \<Rightarrow> statement \<Rightarrow> string \<Rightarrow> string" where
  "raised_message tableName (Describe t) message =
     ''Error getting schema for table '' @ tableName @ '': '' @ message"
| "raised_message tableName (CreateTableLike b t) message =
     ''Error creating backup for table '' @ tableName @ '': '' @ message"
| "raised_message tableName (InsertSelectAll b t) message =
     ''Error creating backup for table '' @ tableName @ '': '' @ message"
| "raised_message tableName q message = message"

text \<open>
  After a failed statement of the backup, every later entry is the switching on of the
  foreign-key checks.
\<close>

fun guarded :: "entry list \<Rightarrow> bool" where
  "guarded [] = True"
| "guarded (e # es) =
     ((if backup_statement (statement_of e) \<and> failed e
       then list_all (\<lambda>x. statement_of x = SetForeignKeyChecks True) es else True)
      \<and> guarded es)"

text \<open>
  Two assumptions on the source server. Reads of table \<open>t\<close> run dry at \<open>n\<close>: a read at an
  offset of \<open>n\<close> or more (and for a positive count) that is answered is answered with no
  rows. The source holds \<open>n\<close>
  rows of \<open>t\<close> throughout: every read (at an offset and with a count that are not negative)
  that is answered is answered with as many rows as there are among \<open>n\<close> from the offset on,
  up to the count.
\<close>

definition reads_run_dry :: "'w driver \<Rightarrow> string \<Rightarrow> nat \<Rightarrow> bool" where
  "reads_run_dry d t n \<longleftrightarrow>
     (\<forall>w cols offset count rows w'.
        int n \<le> offset \<longrightarrow> 0 < count \<longrightarrow>
        run d SourcePool (SelectChunk cols t offset count) w = (Inr rows, w') \<longrightarrow> rows = [])"

definition source_holds :: "'w driver \<Rightarrow> string \<Rightarrow> nat \<Rightarrow> bool" where
  "source_holds d t n \<longleftrightarrow>
     (\<forall>w cols offset count rows w'.
        0 \<le> offset \<longrightarrow> 0 \<le> count \<longrightarrow>
        run d SourcePool (SelectChunk cols t offset count) w = (Inr rows, w') \<longrightarrow>
        length rows = min (nat count) (n - nat offset))"

text \<open>
  The driver that answers like \<open>d\<close>, except that switching the foreign-key checks back on
  fails with the given message.
\<close>

definition enable_fails :: "string \<Rightarrow> 'w driver \<Rightarrow> 'w driver" where
  "enable_fails message d =
     d\<lparr>run := (\<lambda>p q w. if q = SetForeignKeyChecks True
                         then (Inl message, snd (run d p q w)) else run d p q w)\<rparr>"

text \<open>
  The entries a sequence of statements adds when it stops at its first failure and throws
  \<open>e\<close>: clean up to a last one, which failed and whose error is \<open>e\<close>.
\<close>

fun stopped :: "string \<Rightarrow> string \<Rightarrow> entry list \<Rightarrow> bool" where
  "stopped t e [] = False"
| "stopped t e [(p, q, r)] =
     (case r of None \<Rightarrow> False
      | Some m \<Rightarrow> q \<noteq> SetForeignKeyChecks True \<and> e = raised_message t q m)"
| "stopped t e (x # y # ys) = (\<not> failed x \<and> stopped t e (y # ys))"

text \<open>
  The statements each part of the \<open>try\<close> block can issue: reading the schemas (with the
  foreign-key checks switched off first, unless this is a dry run or the strategy is not
  \<open>disable\<close>), protecting the target (backup and \<open>TRUNCATE\<close>), moving the rows (reads of the
  source, and inserts unless this is a dry run).
\<close>

definition schema_entries :: "string \<Rightarrow> MigrationOptions \<Rightarrow> entry list \<Rightarrow> bool" where
  "schema_entries t options new \<longleftrightarrow>
     list_all (\<lambda>x. statement_of x = Describe t
                 \<or> (statement_of x = SetForeignKeyChecks False
                    \<and> foreignKeyStrategy options = ''disable'' \<and> \<not> dryRun options)) new"

fun protects :: "string \<Rightarrow> statement \<Rightarrow> bool" where
  "protects t (CreateTableLike b t') = (t' = t)"
| "protects t (InsertSelectAll b t') = (t' = t)"
| "protects t (TruncateTable t') = (t' = t)"
| "protects t q = False"

fun moves_rows :: "string \<Rightarrow> bool \<Rightarrow> statement \<Rightarrow> bool" where
  "moves_rows t dry (SelectChunk cols t' offset count) = (t' = t)"
| "moves_rows t dry (InsertRow t' cols vals) = (t' = t \<and> \<not> dry)"
| "moves_rows t dry q = False"

text \<open>The column names a \<open>DESCRIBE\<close> answers, as \<open>getTableSchema\<close> reads them.\<close>

definition fields :: "row list \<Rightarrow> string list" where
  "fields rows = map (\<lambda>r. property_key (map_of r ''Field'')) rows"

subsection \<open>Concrete servers for the examples\<close>

text \<open>
  A pair of servers without state: every table of the source has the columns
  \<open>source_columns\<close> and \<open>n\<close> rows, every table of the target has the columns
  \<open>target_columns\<close>, a read is answered from the \<open>n\<close> rows, and every statement succeeds.
  \<open>failing\<close> makes the statements a predicate selects fail with the given message; of
  several failures of one chunk, the first in row order is answered first.
\<close>

definition describe_row :: "string \<Rightarrow> row" where
  "describe_row field =
     [(''Field'', Text field), (''Type'', Text ''int''), (''Null'', Text ''NO''),
      (''Key'', Text ''''), (''Default'', Null), (''Extra'', Text '''')]"

definition sample_row :: "string list \<Rightarrow> row" where
  "sample_row cols = map (\<lambda>col. (col, Text ''7'')) cols"

fun healthy :: "string list \<Rightarrow> string list \<Rightarrow> nat \<Rightarrow> pool \<Rightarrow> statement \<Rightarrow> string + row list" where
  "healthy source_columns target_columns n SourcePool (Describe t) =
     Inr (map describe_row source_columns)"
| "healthy source_columns target_columns n TargetPool (Describe t) =
     Inr (map describe_row target_columns)"
| "healthy source_columns target_columns n p (SelectChunk cols t offset count) =
     Inr (take (nat count) (drop (nat offset) (replicate n (sample_row cols))))"
| "healthy source_columns target_columns n p q = Inr []"

definition failing :: "(pool \<Rightarrow> statement \<Rightarrow> bool) \<Rightarrow> string \<Rightarrow> (pool \<Rightarrow> statement \<Rightarrow> string + row list)
    \<Rightarrow> pool \<Rightarrow> statement \<Rightarrow> string + row list" where
  "failing broken message server p q = (if broken p q then Inl message else server p q)"

definition stateless :: "(pool \<Rightarrow> statement \<Rightarrow> string + row list) \<Rightarrow> unit driver" where
  "stateless server =
     \<lparr>run = (\<lambda>p q w. (server p q, w)),
      clock = (\<lambda>w. ''2024-01-15T10:30:00.000Z''),
      close = (\<lambda>p w. (Inr (), w)),
      settles_first = (\<lambda>w. 0)\<rparr>"

definition start :: "unit state" where
  "start = \<lparr>world = (), trace = [], console = []\<rparr>"

definition defaults :: MigrationOptions where
  "defaults =
     \<lparr>truncateTarget = True, chunkSize = 2, ignoreColumns = [],
      foreignKeyStrategy = ''disable'', dryRun = False\<rparr>"


text \<open>
  A target that refuses every insert, and counts the inserts it was handed: the first one
  fails with \<open>slow failure\<close>, the later ones with \<open>fast failure\<close>. Of the failed inserts of a
  chunk, the one numbered \<open>winner\<close> is answered first. The source has three rows with the
  single column \<open>id\<close>.
\<close>

definition racing :: "nat \<Rightarrow> nat driver" where
  "racing winner =
     \<lparr>run = (\<lambda>p q w. if insert_statement q
                      then (Inl (if w = 0 then ''slow failure'' else ''fast failure''), Suc w)
                      else (healthy [''id''] [''id''] 3 p q, w)),
      clock = (\<lambda>w. ''2024-01-15T10:30:00.000Z''),
      close = (\<lambda>p w. (Inr (), w)),
      settles_first = (\<lambda>w. winner)\<rparr>"

definition racing_start :: "nat state" where
  "racing_start = \<lparr>world = 0, trace = [], console = []\<rparr>"
section \<open>The orderer: graph construction and walk\<close>

lemma well_formedD:
  "well_formed V g \<Longrightarrow> t \<in> V \<Longrightarrow> \<exists>deps. g t = Some deps \<and> set deps \<subseteq> V"
  unfolding well_formed_def by (cases "g t") auto

lemma init_graph_fold:
  "fold (\<lambda>tbl g. g(tbl \<mapsto> [])) tables g0 t =
     (if t \<in> set tables then Some [] else g0 t)"
  by (induction tables arbitrary: g0) auto

lemma well_formed_init_graph: "well_formed (set tables) (init_graph tables)"
  by (auto simp: well_formed_def init_graph_def init_graph_fold split: if_splits)

lemma well_formed_add:
  assumes "well_formed V g" "g c = Some deps" "p \<in> V"
  shows "well_formed V (g(c \<mapsto> set_add deps p))"
  using assms unfolding well_formed_def set_add_def
  by (auto split: if_splits)

lemma add_foreign_keys_well_formed:
  assumes "well_formed (set tables) g" "tbl \<in> set tables"
  shows "\<exists>g'. add_foreign_keys tables tbl fks g = Inr g' \<and> well_formed (set tables) g'"
  using assms
proof (induction fks arbitrary: g)
  case Nil
  then show ?case by simp
next
  case (Cons fk fks)
  show ?case
  proof (cases "TABLE_NAME fk \<in> set tables")
    case True
    with well_formedD [OF Cons.prems(1)] obtain deps where deps: "g (TABLE_NAME fk) = Some deps"
      by blast
    have "well_formed (set tables) (g(TABLE_NAME fk \<mapsto> set_add deps tbl))"
      using well_formed_add [OF Cons.prems(1) deps Cons.prems(2)] .
    from Cons.IH [OF this Cons.prems(2)] obtain g' where
      "add_foreign_keys tables tbl fks (g(TABLE_NAME fk \<mapsto> set_add deps tbl)) = Inr g'"
      "well_formed (set tables) g'" by blast
    moreover have "add_foreign_keys tables tbl (fk # fks) g =
        add_foreign_keys tables tbl fks (g(TABLE_NAME fk \<mapsto> set_add deps tbl))"
      using True deps by simp
    ultimately show ?thesis by simp
  next
    case False
    with Cons.IH [OF Cons.prems] show ?thesis by simp
  qed
qed

lemma collect_dependencies_well_formed:
  assumes "well_formed (set tables) g" "set rest \<subseteq> set tables"
    and "\<forall>t \<in> set rest. \<exists>rows. connection t = Inr rows"
  shows "\<exists>g'. collect_dependencies connection tables rest g = Inr g' \<and> well_formed (set tables) g'"
  using assms
proof (induction rest arbitrary: g)
  case Nil
  then show ?case by simp
next
  case (Cons tbl rest)
  from Cons.prems(3) obtain rows where rows: "connection tbl = Inr rows" by auto
  from Cons.prems(2) have mem: "tbl \<in> set tables" by simp
  from add_foreign_keys_well_formed [OF Cons.prems(1) mem, of rows]
  obtain g1 where g1: "add_foreign_keys tables tbl rows g = Inr g1" "well_formed (set tables) g1"
    by blast
  from Cons.IH [OF g1(2)] Cons.prems obtain g' where
    "collect_dependencies connection tables rest g1 = Inr g'" "well_formed (set tables) g'"
    by auto
  with rows g1 show ?case by (simp add: getForeignKeyDependencies_def)
qed

lemma visit_returns:
  assumes "finite V"
  shows "well_formed V g \<Longrightarrow> tbl \<in> V \<Longrightarrow> fst walk \<subseteq> V \<Longrightarrow> card (V - fst walk) < frames \<Longrightarrow>
           (\<exists>walk'. visit frames g tbl walk = Inr walk' \<and> walked V walk walk' \<and> tbl \<in> fst walk')"
    and "well_formed V g \<Longrightarrow> set deps \<subseteq> V \<Longrightarrow> fst walk \<subseteq> V \<Longrightarrow> card (V - fst walk) < frames \<Longrightarrow>
           (\<exists>walk'. visit_each frames g deps walk = Inr walk' \<and> walked V walk walk' \<and> set deps \<subseteq> fst walk')"
proof (induction frames g tbl walk and frames g deps walk rule: visit_visit_each.induct)
  case (1 g tbl visited order)
  then show ?case by simp
next
  case (2 frames g tbl visited order)
  show ?case
  proof (cases "tbl \<in> visited")
    case True
    then show ?thesis using "2.prems" by (auto simp: walked_def)
  next
    case False
    from well_formedD [OF "2.prems"(1,2)]
    obtain deps where deps: "g tbl = Some deps" "set deps \<subseteq> V" by blast
    have sub: "fst (insert tbl visited, order) \<subseteq> V" using "2.prems"(2,3) by simp
    have "V - insert tbl visited = (V - visited) - {tbl}" by auto
    moreover have "tbl \<in> V - visited" using False "2.prems"(2) by simp
    ultimately have "card (V - insert tbl visited) < card (V - visited)"
      using assms by (metis card_Diff1_less finite_Diff)
    with "2.prems"(4) have c: "card (V - fst (insert tbl visited, order)) < frames" by simp
    from "2.IH" [OF False deps(1) "2.prems"(1) deps(2) sub c]
    obtain walk' where w: "visit_each frames g deps (insert tbl visited, order) = Inr walk'"
      "walked V (insert tbl visited, order) walk'" by blast
    obtain visited' order' where p: "walk' = (visited', order')" by (cases walk')
    from w(2) p obtain new where new: "order' = new @ order" "distinct new"
      "set new = visited' - insert tbl visited" "insert tbl visited \<subseteq> visited'" "visited' \<subseteq> V"
      by (auto simp: walked_def)
    have "walked V (visited, order) (visited', tbl # order')"
      unfolding walked_def using new False by (auto intro!: exI [of _ "tbl # new"])
    with w(1) p False deps(1) new(4) show ?thesis by auto
  qed
next
  case (3 frames g walk)
  then show ?case by (simp add: walked_def)
next
  case (4 frames g dep deps walk)
  from "4.prems"(2) have d: "dep \<in> V" "set deps \<subseteq> V" by auto
  from "4.IH"(1) [OF "4.prems"(1) d(1) "4.prems"(3,4)]
  obtain walk1 where w1: "visit frames g dep walk = Inr walk1" "walked V walk walk1" "dep \<in> fst walk1"
    by blast
  from w1(2) have s1: "fst walk \<subseteq> fst walk1" "fst walk1 \<subseteq> V" by (auto simp: walked_def)
  then have "V - fst walk1 \<subseteq> V - fst walk" by auto
  then have "card (V - fst walk1) \<le> card (V - fst walk)"
    using assms by (meson card_mono finite_Diff)
  with "4.prems"(4) have c: "card (V - fst walk1) < frames" by simp
  from "4.IH"(2) [OF w1(1) "4.prems"(1) d(2) s1(2) c]
  obtain walk' where w2: "visit_each frames g deps walk1 = Inr walk'" "walked V walk1 walk'"
    "set deps \<subseteq> fst walk'" by blast
  from w1(2) obtain n1 where n1: "snd walk1 = n1 @ snd walk" "distinct n1" "set n1 = fst walk1 - fst walk"
    by (auto simp: walked_def)
  from w2(2) obtain n2 where n2: "snd walk' = n2 @ snd walk1" "distinct n2" "set n2 = fst walk' - fst walk1"
    "fst walk1 \<subseteq> fst walk'" "fst walk' \<subseteq> V"
    by (auto simp: walked_def)
  have "walked V walk walk'"
    unfolding walked_def using n1 n2 s1 by (auto intro!: exI [of _ "n2 @ n1"])
  with w1 w2 n2(4) show ?case by auto
qed

lemma getMigrationOrder_returns:
  assumes "\<forall>t \<in> set tables. \<exists>rows. connection t = Inr rows"
    and "card (set tables) < frames"
  shows "\<exists>order. getMigrationOrder frames connection tables = Inr order
           \<and> distinct order \<and> set order = set tables"
proof -
  from collect_dependencies_well_formed [OF well_formed_init_graph _ assms(1)]
  obtain g where g: "collect_dependencies connection tables tables (init_graph tables) = Inr g"
    "well_formed (set tables) g" by blast
  have "card (set tables - fst ({}::string set, []::string list)) < frames" using assms(2) by simp
  from visit_returns(2) [OF _ g(2) _ _ this, of tables]
  obtain walk' where w: "visit_each frames g tables ({}, []) = Inr walk'"
    "walked (set tables) ({}, []) walk'" "set tables \<subseteq> fst walk'" by auto
  obtain visited order where p: "walk' = (visited, order)" by (cases walk')
  from w(2,3) p have "distinct order" "set order = set tables" by (auto simp: walked_def)
  with g(1) w(1) p show ?thesis by (simp add: getMigrationOrder_def)
qed

subsection \<open>The order of the result\<close>

lemma deps_rel_init: "deps_rel (init_graph tables) = {}"
  by (auto simp: deps_rel_def init_graph_def init_graph_fold split: if_splits)

lemma deps_rel_add:
  "g c = Some deps \<Longrightarrow> deps_rel (g(c \<mapsto> set_add deps p)) = insert (c, p) (deps_rel g)"
  by (auto simp: deps_rel_def set_add_def split: if_splits)

lemma add_foreign_keys_rel:
  "add_foreign_keys tables p fks g = Inr g' \<Longrightarrow>
     deps_rel g' = deps_rel g \<union> {(c, p) | c. c \<in> TABLE_NAME ` set fks \<and> c \<in> set tables}"
proof (induction fks arbitrary: g)
  case Nil
  then show ?case by simp
next
  case (Cons fk fks)
  show ?case
  proof (cases "TABLE_NAME fk \<in> set tables")
    case False
    with Cons.prems have "add_foreign_keys tables p fks g = Inr g'" by simp
    from Cons.IH [OF this] False show ?thesis by auto
  next
    case True
    with Cons.prems obtain deps where deps: "g (TABLE_NAME fk) = Some deps"
      by (cases "g (TABLE_NAME fk)") auto
    with Cons.prems True
    have "add_foreign_keys tables p fks (g(TABLE_NAME fk \<mapsto> set_add deps p)) = Inr g'"
      by simp
    from Cons.IH [OF this]
    have a: "deps_rel g' = deps_rel (g(TABLE_NAME fk \<mapsto> set_add deps p))
        \<union> {(c, p) | c. c \<in> TABLE_NAME ` set fks \<and> c \<in> set tables}" .
    have b: "deps_rel (g(TABLE_NAME fk \<mapsto> set_add deps p)) = insert (TABLE_NAME fk, p) (deps_rel g)"
      using deps by (rule deps_rel_add)
    show ?thesis unfolding a b using True by auto
  qed
qed

lemma collect_dependencies_rel:
  "collect_dependencies connection tables rest g = Inr g' \<Longrightarrow>
     deps_rel g' = deps_rel g \<union>
       {(c, p). p \<in> set rest \<and> c \<in> set tables
          \<and> (\<exists>rows. connection p = Inr rows \<and> c \<in> TABLE_NAME ` set rows)}"
proof (induction rest arbitrary: g)
  case Nil
  then show ?case by simp
next
  case (Cons p rest)
  from Cons.prems obtain rows g1 where
    rows: "connection p = Inr rows" and
    g1: "add_foreign_keys tables p rows g = Inr g1" and
    rest: "collect_dependencies connection tables rest g1 = Inr g'"
    by (auto simp: getForeignKeyDependencies_def split: sum.splits)
  from Cons.IH [OF rest] add_foreign_keys_rel [OF g1] rows show ?case
    by auto
qed

lemma precedes_Cons: "precedes xs x y \<Longrightarrow> precedes (z # xs) x y"
  unfolding precedes_def by (metis append_Cons)

lemma precedes_append: "precedes xs x y \<Longrightarrow> precedes (zs @ xs) x y"
  by (induction zs) (auto intro: precedes_Cons)

lemma precedes_head: "y \<in> set xs \<Longrightarrow> precedes (x # xs) x y"
  unfolding precedes_def by (metis append_Nil)

lemma walk_children_first:
  assumes "acyclic (deps_rel g)"
  shows "visit frames g t walk = Inr walk' \<Longrightarrow> finished g walk \<Longrightarrow>
           \<forall>y \<in> fst walk - set (snd walk). (y, t) \<in> (deps_rel g)\<^sup>* \<Longrightarrow>
           finished g walk' \<and> fst walk' - set (snd walk') = fst walk - set (snd walk)
             \<and> t \<in> fst walk' \<and> fst walk \<subseteq> fst walk'"
    and "visit_each frames g deps walk = Inr walk' \<Longrightarrow> finished g walk \<Longrightarrow>
           \<forall>d \<in> set deps. \<forall>y \<in> fst walk - set (snd walk). (y, d) \<in> (deps_rel g)\<^sup>* \<Longrightarrow>
           finished g walk' \<and> fst walk' - set (snd walk') = fst walk - set (snd walk)
             \<and> set deps \<subseteq> fst walk' \<and> fst walk \<subseteq> fst walk'"
  using assms
proof (induction frames g t walk and frames g deps walk arbitrary: walk' and walk'
    rule: visit_visit_each.induct)
  case (1 g t visited order)
  then show ?case by simp
next
  case (2 frames g t visited order)
  show ?case
  proof (cases "t \<in> visited")
    case True
    with "2.prems" show ?thesis by auto
  next
    case False
    with "2.prems"(1) obtain deps visited' order' where
      deps: "g t = Some deps" and
      loop: "visit_each frames g deps (insert t visited, order) = Inr (visited', order')" and
      res: "walk' = (visited', t # order')"
      by (auto split: option.splits sum.splits prod.splits)
    from "2.prems"(2) have fin0: "finished g (insert t visited, order)"
      by (auto simp: finished_def)
    from "2.prems"(2) False have tno: "t \<notin> set order" by (auto simp: finished_def)
    have pre: "\<forall>d \<in> set deps. \<forall>y \<in> fst (insert t visited, order) - set (snd (insert t visited, order)).
        (y, d) \<in> (deps_rel g)\<^sup>*"
    proof (intro ballI)
      fix d y
      assume d: "d \<in> set deps"
        and y: "y \<in> fst (insert t visited, order) - set (snd (insert t visited, order))"
      from d deps have td: "(t, d) \<in> deps_rel g" by (auto simp: deps_rel_def)
      from y "2.prems"(3) have "(y, t) \<in> (deps_rel g)\<^sup>*" by auto
      from this td show "(y, d) \<in> (deps_rel g)\<^sup>*" by (rule rtrancl_into_rtrancl)
    qed
    from "2.IH" [OF False deps loop fin0 pre "2.prems"(4)]
    have post: "finished g (visited', order')"
      "visited' - set order' = insert t visited - set order"
      "set deps \<subseteq> visited'" "insert t visited \<subseteq> visited'"
      by simp_all
    have gray: "visited' - set (t # order') = visited - set order"
      using post(2) False tno by auto
    have "precedes (t # order') x y" if x: "x \<in> set (t # order')" and e: "(x, y) \<in> deps_rel g" for x y
    proof (cases "x \<in> set order'")
      case True
      with post(1) e have "precedes order' x y" by (auto simp: finished_def)
      then show ?thesis by (rule precedes_Cons)
    next
      case False
      with x have xt: "x = t" by simp
      with e deps have "y \<in> set deps" by (auto simp: deps_rel_def)
      with post(3) have yv: "y \<in> visited'" by auto
      have "y \<in> set order'"
      proof (rule ccontr)
        assume "y \<notin> set order'"
        with yv post(2) have "y \<in> insert t visited - set order" by auto
        with "2.prems"(3) have "(y, t) \<in> (deps_rel g)\<^sup>*" by auto
        with e xt have "(t, t) \<in> (deps_rel g)\<^sup>+" by (metis rtrancl_into_trancl2)
        with "2.prems"(4) show False by (auto simp: acyclic_def)
      qed
      with xt show ?thesis by (auto intro: precedes_head)
    qed
    moreover have "set (t # order') \<subseteq> visited'"
      using post(1,4) by (auto simp: finished_def)
    ultimately have "finished g (visited', t # order')"
      by (auto simp: finished_def)
    with gray post(4) res show ?thesis by auto
  qed
next
  case (3 frames g walk)
  then show ?case by auto
next
  case (4 frames g dep deps walk)
  from "4.prems"(1) obtain walk1 where
    v: "visit frames g dep walk = Inr walk1" and
    l: "visit_each frames g deps walk1 = Inr walk'"
    by (auto split: sum.splits)
  from "4.prems"(3) have pre1: "\<forall>y \<in> fst walk - set (snd walk). (y, dep) \<in> (deps_rel g)\<^sup>*"
    by simp
  from "4.IH"(1) [OF v "4.prems"(2) pre1 "4.prems"(4)]
  have p1: "finished g walk1" "fst walk1 - set (snd walk1) = fst walk - set (snd walk)"
    "dep \<in> fst walk1" "fst walk \<subseteq> fst walk1" by simp_all
  from "4.prems"(3) p1(2)
  have pre2: "\<forall>d \<in> set deps. \<forall>y \<in> fst walk1 - set (snd walk1). (y, d) \<in> (deps_rel g)\<^sup>*"
    by simp
  from "4.IH"(2) [OF v l p1(1) pre2 "4.prems"(4)]
  have p2: "finished g walk'" "fst walk' - set (snd walk') = fst walk1 - set (snd walk1)"
    "set deps \<subseteq> fst walk'" "fst walk1 \<subseteq> fst walk'" by simp_all
  with p1 show ?case by auto
qed

subsection \<open>More frames change nothing\<close>

text \<open>
  The number of frames only bounds the recursion: a walk that returns with some number of
  frames returns the same with more.
\<close>

lemma visit_more_frames:
  "visit frames g t walk = Inr walk' \<Longrightarrow> visit (frames + k) g t walk = Inr walk'"
  "visit_each frames g deps walk = Inr walk' \<Longrightarrow> visit_each (frames + k) g deps walk = Inr walk'"
proof (induction frames g t walk and frames g deps walk arbitrary: walk' and walk'
    rule: visit_visit_each.induct)
  case (1 g t visited order)
  then show ?case by simp
next
  case (2 frames g t visited order)
  show ?case
  proof (cases "t \<in> visited")
    case True
    with "2.prems" show ?thesis by auto
  next
    case False
    with "2.prems" obtain deps visited' order' where
      deps: "g t = Some deps" and
      loop: "visit_each frames g deps (insert t visited, order) = Inr (visited', order')" and
      res: "walk' = (visited', t # order')"
      by (auto split: option.splits sum.splits prod.splits)
    from "2.IH" [OF False deps loop] False deps res show ?thesis by simp
  qed
next
  case (3 frames g walk)
  then show ?case by simp
next
  case (4 frames g dep deps walk)
  from "4.prems" obtain walk1 where
    v: "visit frames g dep walk = Inr walk1" and
    l: "visit_each frames g deps walk1 = Inr walk'"
    by (auto split: sum.splits)
  from "4.IH"(1) [OF v] "4.IH"(2) [OF v l] show ?case by simp
qed

lemma getMigrationOrder_more_frames:
  "getMigrationOrder frames connection tables = Inr order \<Longrightarrow>
     getMigrationOrder (frames + k) connection tables = Inr order"
  by (auto simp: getMigrationOrder_def visit_more_frames split: sum.splits prod.splits)

subsection \<open>Claims about the orderer\<close>

lemma fk_edgesI:
  assumes "child \<in> set tables" "parent \<in> set tables"
    and "connection parent = Inr rows" "child \<in> TABLE_NAME ` set rows"
  shows "(child, parent) \<in> fk_edges connection tables"
  unfolding fk_edges_def using assms by blast

lemma mutual_references_cycle:
  "has_cycle (catalogue [references ''A'' ''B'', references ''B'' ''A'']) [''A'', ''B'']"
proof -
  let ?c = "catalogue [references ''A'' ''B'', references ''B'' ''A'']"
  have ab: "(''A'', ''B'') \<in> fk_edges ?c [''A'', ''B'']"
    by (rule fk_edgesI [where rows = "[references ''A'' ''B'']"])
      (simp_all add: catalogue_def references_def)
  have ba: "(''B'', ''A'') \<in> fk_edges ?c [''A'', ''B'']"
    by (rule fk_edgesI [where rows = "[references ''B'' ''A'']"])
      (simp_all add: catalogue_def references_def)
  from ab have "(''A'', ''B'') \<in> (fk_edges ?c [''A'', ''B''])\<^sup>+"
    by (rule r_into_trancl)
  from this ba have aa: "(''A'', ''A'') \<in> (fk_edges ?c [''A'', ''B''])\<^sup>+"
    by (rule trancl_into_trancl)
  show ?thesis
    unfolding has_cycle_def by (rule exI [where x = "''A''"]) (rule aa)
qed

text \<open>
  What the walk does with an acyclic foreign-key relation: it places every table before
  all the tables it references, the child before the parent, for every foreign key.
\<close>

lemma getMigrationOrder_children_first:
  assumes "\<forall>t \<in> set tables. \<exists>rows. connection t = Inr rows"
    and "card (set tables) < frames"
    and "\<not> has_cycle connection tables"
    and "(child, parent) \<in> fk_edges connection tables"
  shows "\<exists>order front back. getMigrationOrder frames connection tables = Inr order
           \<and> distinct order \<and> order = front @ child # back \<and> parent \<in> set back"
proof -
  from collect_dependencies_well_formed [OF well_formed_init_graph _ assms(1)]
  obtain g where g: "collect_dependencies connection tables tables (init_graph tables) = Inr g"
    "well_formed (set tables) g" by blast
  from collect_dependencies_rel [OF g(1)] have rel: "deps_rel g = fk_edges connection tables"
    by (auto simp: deps_rel_init fk_edges_def)
  with assms(3) have acyc: "acyclic (deps_rel g)"
    by (simp add: has_cycle_def acyclic_def)
  have "card (set tables - fst ({}::string set, []::string list)) < frames" using assms(2) by simp
  from visit_returns(2) [OF _ g(2) _ _ this, of tables]
  obtain walk' where w: "visit_each frames g tables ({}, []) = Inr walk'"
    "walked (set tables) ({}, []) walk'" "set tables \<subseteq> fst walk'" by auto
  obtain visited order where p: "walk' = (visited, order)" by (cases walk')
  from w(2,3) p have d: "distinct order" "set order = set tables" by (auto simp: walked_def)
  have "finished g ({}, [])" by (simp add: finished_def)
  from walk_children_first(2) [OF acyc w(1) this] p
  have "finished g (visited, order)" by simp
  moreover from assms(4) d(2) have "child \<in> set order" by (auto simp: fk_edges_def)
  ultimately have "precedes order child parent"
    using assms(4) rel by (auto simp: finished_def)
  with g(1) w(1) p d(1) show ?thesis
    by (auto simp: getMigrationOrder_def precedes_def)
qed

text \<open>
  C1. The claim: for every edge parent->child the returned sequence has the parent before
  the child; for A, B, C where B references A and C references B, A comes before B and B
  before C. The code at that input: the walk visits the tables a table references before
  it puts the table itself in front (\<open>unshift\<close>) of them, so the sequence is C, B, A, every
  child before its parent.
\<close>

theorem getMigrationOrder_chain_children_first:
  "getMigrationOrder 10 (catalogue [references ''B'' ''A'', references ''C'' ''B''])
     [''A'', ''B'', ''C''] = Inr [''C'', ''B'', ''A'']"
  by (simp add: getMigrationOrder_def catalogue_def references_def init_graph_def
      getForeignKeyDependencies_def set_add_def eval_nat_numeral)

text \<open>
  C2. The claim: on a working set with a cyclic foreign-key relation the orderer fails with
  a CyclicDependencyError. The code has no such error: with A referencing B and B
  referencing A it returns the order A, B.
\<close>

theorem getMigrationOrder_cycle_counterexample:
  "has_cycle (catalogue [references ''A'' ''B'', references ''B'' ''A'']) [''A'', ''B'']
   \<and> getMigrationOrder 3 (catalogue [references ''A'' ''B'', references ''B'' ''A''])
        [''A'', ''B''] = Inr [''A'', ''B'']"
proof
  let ?c = "catalogue [references ''A'' ''B'', references ''B'' ''A'']"
  show "has_cycle ?c [''A'', ''B'']"
    by (rule mutual_references_cycle)
  show "getMigrationOrder 3 ?c [''A'', ''B''] = Inr [''A'', ''B'']"
    by (simp add: getMigrationOrder_def catalogue_def references_def init_graph_def
        getForeignKeyDependencies_def set_add_def eval_nat_numeral)
qed

text \<open>
  C2 as the code has it: on a working set with a cyclic foreign-key relation, when the
  metadata queries are answered and the call stack has more frames than there are tables,
  the orderer raises nothing and returns an order with every table of the working set
  exactly once.
\<close>

theorem getMigrationOrder_cycle_returns_order:
  assumes "has_cycle connection tables"
    and "\<forall>t \<in> set tables. \<exists>rows. connection t = Inr rows"
    and "card (set tables) < frames"
  shows "\<exists>order. getMigrationOrder frames connection tables = Inr order
           \<and> distinct order \<and> set order = set tables"
  using getMigrationOrder_returns [OF assms(2,3)] .

theorem getMigrationOrder_cycle_returns_order_witness:
  "has_cycle (catalogue [references ''A'' ''B'', references ''B'' ''A'']) [''A'', ''B'']
   \<and> card (set [''A'', ''B'']) < (3::nat)
   \<and> (\<exists>order. getMigrationOrder 3 (catalogue [references ''A'' ''B'', references ''B'' ''A''])
         [''A'', ''B''] = Inr order \<and> distinct order \<and> set order = set [''A'', ''B''])"
proof -
  let ?c = "catalogue [references ''A'' ''B'', references ''B'' ''A'']"
  have h1: "has_cycle ?c [''A'', ''B'']"
    by (rule mutual_references_cycle)
  have h2: "\<forall>t \<in> set [''A'', ''B'']. \<exists>rows. ?c t = Inr rows"
    by (simp add: catalogue_def)
  have h3: "card (set [''A'', ''B'']) < (3::nat)"
    by simp
  from getMigrationOrder_cycle_returns_order [OF h1 h2 h3] h1 h3
  show ?thesis by blast
qed

text \<open>
  C10. For every working set and every foreign-key relation over it, cyclic or not,
  \<open>getMigrationOrder\<close> returns (the metadata queries being answered, and the call stack
  having more frames than there are tables: one frame per table on the current path, and
  one for the call that finds its table already visited), and the sequence it returns has
  every table of the working set exactly once.
\<close>

theorem getMigrationOrder_terminates_every_table_once:
  assumes "\<forall>t \<in> set tables. \<exists>rows. connection t = Inr rows"
    and "card (set tables) < frames"
  shows "\<exists>order. getMigrationOrder frames connection tables = Inr order
           \<and> distinct order \<and> set order = set tables"
  using assms by (rule getMigrationOrder_returns)

theorem getMigrationOrder_terminates_every_table_once_witness:
  "card (set [''A'', ''B'', ''C'', ''A'']) < (4::nat)
   \<and> (\<exists>order. getMigrationOrder 4
         (catalogue [references ''B'' ''A'', references ''C'' ''B'', references ''A'' ''C''])
         [''A'', ''B'', ''C'', ''A''] = Inr order
       \<and> distinct order \<and> set order = set [''A'', ''B'', ''C'', ''A''])"
proof -
  let ?c = "catalogue [references ''B'' ''A'', references ''C'' ''B'', references ''A'' ''C'']"
  have h1: "\<forall>t \<in> set [''A'', ''B'', ''C'', ''A'']. \<exists>rows. ?c t = Inr rows"
    by (simp add: catalogue_def)
  have "set [''A'', ''B'', ''C'', ''A''] = {''A'', ''B'', ''C''}" by auto
  then have h2: "card (set [''A'', ''B'', ''C'', ''A'']) < (4::nat)" by simp
  from getMigrationOrder_terminates_every_table_once [OF h1 h2] h2
  show ?thesis by blast
qed

section \<open>The engine: what each step adds to the trace\<close>


lemma execute_trace:
  "execute d p q s = (reply, s') \<Longrightarrow> trace s' = trace s @ [(p, q, failure_of reply)]"
  by (auto simp: execute_def split: prod.splits)

lemma execute_cases:
  obtains m s' where "execute d p q s = (Inl m, s')" "trace s' = trace s @ [(p, q, Some m)]"
      "console s' = console s"
  | rows s' where "execute d p q s = (Inr rows, s')" "trace s' = trace s @ [(p, q, None)]"
      "console s' = console s"
proof (cases "run d p q (world s)")
  case (Pair reply w)
  then show ?thesis
    by (cases reply) (auto simp: execute_def failure_of_def intro: that)
qed

lemma trace_logger_log [simp]: "trace (logger_log m s) = trace s"
  by (simp add: logger_log_def)

lemma trace_logger_error [simp]: "trace (logger_error m s) = trace s"
  by (simp add: logger_error_def)

lemma clean_Nil [simp]: "clean []"
  by (simp add: clean_def)

lemma clean_append [simp]: "clean (xs @ ys) \<longleftrightarrow> clean xs \<and> clean ys"
  by (simp add: clean_def)

lemma failed_entry [simp]: "failed (p, q, r) \<longleftrightarrow> r \<noteq> None"
  by (simp add: failed_def)

lemma statement_of_entry [simp]: "statement_of (p, q, r) = q"
  by (simp add: statement_of_def)

lemma clean_Cons [simp]: "clean (x # xs) \<longleftrightarrow> \<not> failed x \<and> clean xs"
  by (simp add: clean_def)

lemma first_error_clean: "clean xs \<Longrightarrow> first_error (xs @ ys) = first_error ys"
  by (induction xs rule: first_error.induct) (auto simp: clean_def failed_def)

lemma first_error_append:
  "first_error (xs @ ys) = (case first_error xs of None \<Rightarrow> first_error ys | Some x \<Rightarrow> Some x)"
  by (induction xs rule: first_error.induct) auto

lemma first_error_mem: "first_error new = Some (q, m) \<Longrightarrow> \<exists>p. (p, q, Some m) \<in> set new"
  by (induction new rule: first_error.induct) (auto split: if_splits)

lemma since_first_error_clean: "clean xs \<Longrightarrow> since_first_error (xs @ ys) = since_first_error ys"
  by (induction xs rule: since_first_error.induct) (auto simp: clean_def failed_def)

lemma since_first_error_append:
  "first_error xs \<noteq> None \<Longrightarrow> since_first_error (xs @ ys) = since_first_error xs @ ys"
  by (induction xs rule: since_first_error.induct) auto

lemma failure_messages_Nil_iff: "failure_messages xs = [] \<longleftrightarrow> clean xs"
  by (induction xs) (auto simp: failure_messages_def failed_def split: option.splits)

lemma failed_chunk_clean: "clean xs \<Longrightarrow> failed_chunk e (xs @ ys) = failed_chunk e ys"
  by (simp add: failed_chunk_def first_error_clean since_first_error_clean)

lemma failed_chunk_inserts:
  "list_all (\<lambda>x. insert_statement (statement_of x)) new \<Longrightarrow> e \<in> set (failure_messages new) \<Longrightarrow>
     failed_chunk e new"
proof (induction new)
  case Nil
  then show ?case by (simp add: failure_messages_def)
next
  case (Cons x xs)
  obtain p q r where x: "x = (p, q, r)" by (cases x)
  show ?case
  proof (cases r)
    case None
    with Cons x show ?thesis by (simp add: failed_chunk_def failure_messages_def)
  next
    case (Some m)
    from Cons.prems(1) x have "insert_statement q" by simp
    then have "q \<noteq> SetForeignKeyChecks True" by auto
    with Cons.prems x Some show ?thesis by (simp add: failed_chunk_def)
  qed
qed

lemma failed_chunk_first_error:
  "failed_chunk e new \<Longrightarrow> \<exists>q m. first_error new = Some (q, m) \<and> insert_statement q"
  by (auto simp: failed_chunk_def split: option.splits)

lemma failed_chunk_then:
  assumes "failed_chunk e new" "list_all (\<lambda>x. \<not> insert_statement (statement_of x)) rest"
  shows "e \<in> set (failed_inserts (new @ rest))"
proof -
  from assms(1) have f: "first_error new \<noteq> None"
    and i: "list_all (\<lambda>x. insert_statement (statement_of x)) (since_first_error new)"
    and e: "e \<in> set (failure_messages (since_first_error new))"
    by (auto simp: failed_chunk_def split: option.splits)
  have "takeWhile (\<lambda>x. insert_statement (statement_of x)) rest = []"
    using assms(2) by (cases rest) auto
  with i have "takeWhile (\<lambda>x. insert_statement (statement_of x)) (since_first_error new @ rest)
      = since_first_error new"
    by (simp add: takeWhile_append2 list_all_iff)
  with e show ?thesis
    by (simp add: failed_inserts_def since_first_error_append [OF f])
qed

lemma getTableSchema_cases:
  obtains e s' m where "getTableSchema d p t s = (Inl e, s')" "trace s' = trace s @ [(p, Describe t, Some m)]"
      "e = raised_message t (Describe t) m"
  | schema s' where "getTableSchema d p t s = (Inr schema, s')" "trace s' = trace s @ [(p, Describe t, None)]"
  by (rule execute_cases [of d p "Describe t" s]) (auto simp: getTableSchema_def)

lemma disableForeignKeyChecks_cases:
  obtains m s' where "disableForeignKeyChecks d p s = (Inl m, s')"
      "trace s' = trace s @ [(p, SetForeignKeyChecks False, Some m)]"
  | s' where "disableForeignKeyChecks d p s = (Inr (), s')"
      "trace s' = trace s @ [(p, SetForeignKeyChecks False, None)]"
  by (rule execute_cases [of d p "SetForeignKeyChecks False" s]) (auto simp: disableForeignKeyChecks_def)

lemma backupTable_cases:
  obtains e s' pre q m where "backupTable d p t s = (Inl e, s')"
      "trace s' = trace s @ pre @ [(p, q, Some m)]" "clean pre" "backup_statement q"
      "list_all (\<lambda>x. protects t (statement_of x)) (pre @ [(p, q, Some m)])"
      "list_all (\<lambda>x. backup_statement (statement_of x)) pre"
      "e = raised_message t q m"
  | b s' new where "backupTable d p t s = (Inr b, s')" "trace s' = trace s @ new" "clean new"
      "list_all (\<lambda>x. protects t (statement_of x)) new"
      "list_all (\<lambda>x. backup_statement (statement_of x)) new"
proof -
  let ?b = "t @ ''_backup_'' @ backup_timestamp (clock d (world s))"
  show ?thesis
  proof (rule execute_cases [of d p "CreateTableLike ?b t" s])
    fix m s1
    assume "execute d p (CreateTableLike ?b t) s = (Inl m, s1)"
      "trace s1 = trace s @ [(p, CreateTableLike ?b t, Some m)]"
    then show ?thesis
      by (intro that(1) [of _ s1 "[]" "CreateTableLike ?b t" m]) (auto simp: backupTable_def Let_def)
  next
    fix rows s1
    assume 1: "execute d p (CreateTableLike ?b t) s = (Inr rows, s1)"
      "trace s1 = trace s @ [(p, CreateTableLike ?b t, None)]"
    show ?thesis
    proof (rule execute_cases [of d p "InsertSelectAll ?b t" s1])
      fix m s2
      assume "execute d p (InsertSelectAll ?b t) s1 = (Inl m, s2)"
        "trace s2 = trace s1 @ [(p, InsertSelectAll ?b t, Some m)]"
      with 1 show ?thesis
        by (intro that(1) [of _ s2 "[(p, CreateTableLike ?b t, None)]" "InsertSelectAll ?b t" m])
          (auto simp: backupTable_def Let_def statement_of_def)
    next
      fix rows2 s2
      assume "execute d p (InsertSelectAll ?b t) s1 = (Inr rows2, s2)"
        "trace s2 = trace s1 @ [(p, InsertSelectAll ?b t, None)]"
      with 1 show ?thesis
        by (intro that(2) [of ?b "logger_log (''Created backup table: '' @ ?b) s2"
              "[(p, CreateTableLike ?b t, None), (p, InsertSelectAll ?b t, None)]"])
          (auto simp: backupTable_def Let_def statement_of_def clean_def failed_def)
    qed
  qed
qed

lemma stopped_single: "stopped t e [x] \<Longrightarrow> failed x"
  by (cases x) (auto split: option.splits)

lemma stopped_append: "clean xs \<Longrightarrow> stopped t e (xs @ ys) = stopped t e ys"
proof (induction xs)
  case Nil
  then show ?case by simp
next
  case (Cons x xs)
  then have "clean xs" "\<not> failed x" by auto
  with Cons.IH show ?case by (cases "xs @ ys") (auto dest: stopped_single)
qed

lemma stopped_first_error:
  "stopped t e new \<Longrightarrow> \<exists>q m. first_error new = Some (q, m) \<and> e = raised_message t q m"
  by (induction t e new rule: stopped.induct) (auto simp: failed_def split: option.splits)

lemma clean_first_error: "clean new \<Longrightarrow> first_error new = None"
  using first_error_clean [of new "[]"] by simp

lemma compare_schemas_shape:
  assumes "compare_schemas d t options s = (out, s')"
  shows "\<exists>new. trace s' = trace s @ new \<and> schema_entries t options new \<and>
           (case out of
              Inl e \<Rightarrow> stopped t e new \<or> (clean new \<and> e = ''No common columns found for table '' @ t)
            | Inr cols \<Rightarrow> clean new \<and> cols \<noteq> [])"
proof -
  let ?fk = "foreignKeyStrategy options = ''disable'' \<and> \<not> dryRun options"
  obtain o1 s1 where first: "(if ?fk then disableForeignKeyChecks d TargetPool s else (Inr (), s)) = (o1, s1)"
    by fastforce
  have "\<exists>n1. trace s1 = trace s @ n1 \<and> schema_entries t options n1
           \<and> (case o1 of Inl e \<Rightarrow> stopped t e n1 | Inr u \<Rightarrow> clean n1)"
  proof (cases ?fk)
    case True
    show ?thesis
      by (rule disableForeignKeyChecks_cases [of d TargetPool s])
        (use True first in \<open>auto simp: schema_entries_def statement_of_def\<close>)
  next
    case False
    with first show ?thesis by (auto simp: schema_entries_def)
  qed
  then obtain n1 where n1: "trace s1 = trace s @ n1" "schema_entries t options n1"
    "case o1 of Inl e \<Rightarrow> stopped t e n1 | Inr u \<Rightarrow> clean n1" by blast
  show ?thesis
  proof (cases o1)
    case (Inl e)
    with assms first n1 show ?thesis
      by (auto simp: compare_schemas_def)
  next
    case (Inr u)
    with n1 have c1: "clean n1" by simp
    show ?thesis
    proof (rule getTableSchema_cases [of d SourcePool t s1])
      fix e s2 m
      assume a: "getTableSchema d SourcePool t s1 = (Inl e, s2)"
        "trace s2 = trace s1 @ [(SourcePool, Describe t, Some m)]"
        "e = raised_message t (Describe t) m"
      have "stopped t e (n1 @ [(SourcePool, Describe t, Some m)])"
        using a(3) by (simp add: stopped_append [OF c1])
      moreover have "schema_entries t options (n1 @ [(SourcePool, Describe t, Some m)])"
        using n1(2) by (simp add: schema_entries_def statement_of_def)
      ultimately show ?thesis
        using assms first Inr a(1,2) n1(1) by (auto simp: compare_schemas_def)
    next
      fix schema s2
      assume a: "getTableSchema d SourcePool t s1 = (Inr schema, s2)"
        "trace s2 = trace s1 @ [(SourcePool, Describe t, None)]"
      show ?thesis
      proof (rule getTableSchema_cases [of d TargetPool t s2])
        fix e s3 m
        assume b: "getTableSchema d TargetPool t s2 = (Inl e, s3)"
          "trace s3 = trace s2 @ [(TargetPool, Describe t, Some m)]"
          "e = raised_message t (Describe t) m"
        have "stopped t e ((n1 @ [(SourcePool, Describe t, None)]) @ [(TargetPool, Describe t, Some m)])"
          using b(3) c1 by (subst stopped_append) simp_all
        moreover have "schema_entries t options
            ((n1 @ [(SourcePool, Describe t, None)]) @ [(TargetPool, Describe t, Some m)])"
          using n1(2) by (simp add: schema_entries_def statement_of_def)
        ultimately show ?thesis
          using assms first Inr a b(1,2) n1(1) by (auto simp: compare_schemas_def)
      next
        fix target s3
        assume b: "getTableSchema d TargetPool t s2 = (Inr target, s3)"
          "trace s3 = trace s2 @ [(TargetPool, Describe t, None)]"
        have "clean ((n1 @ [(SourcePool, Describe t, None)]) @ [(TargetPool, Describe t, None)])"
          using c1 by simp
        moreover have "schema_entries t options
            ((n1 @ [(SourcePool, Describe t, None)]) @ [(TargetPool, Describe t, None)])"
          using n1(2) by (simp add: schema_entries_def statement_of_def)
        moreover have tr: "trace s3 = trace s @ (n1 @ [(SourcePool, Describe t, None)]) @ [(TargetPool, Describe t, None)]"
          using a(2) b(2) n1(1) by simp
        moreover have "compare_schemas d t options s =
            (if common_columns schema target (ignoreColumns options) = []
             then (Inl (''No common columns found for table '' @ t), s3)
             else (Inr (common_columns schema target (ignoreColumns options)), s3))"
          using first Inr a(1) b(1) by (simp add: compare_schemas_def Let_def)
        ultimately show ?thesis
          using assms by (cases "common_columns schema target (ignoreColumns options) = []") auto
      qed
    qed
  qed
qed

lemma list_all_butlast: "list_all P xs \<Longrightarrow> list_all P (butlast xs)"
  by (auto simp: list_all_iff dest: in_set_butlastD)

lemma backup_and_truncate_shape:
  assumes "backup_and_truncate d t options s = (out, s')"
  shows "\<exists>new. trace s' = trace s @ new
           \<and> list_all (\<lambda>x. protects t (statement_of x)) new
           \<and> list_all (\<lambda>x. backup_statement (statement_of x)) (butlast new)
           \<and> (if dryRun options then new = [] else True)
           \<and> (case out of Inl e \<Rightarrow> stopped t e new | Inr u \<Rightarrow> clean new)"
proof -
  obtain o1 s1 where first:
    "(if \<not> dryRun options
      then (case backupTable d TargetPool t s of
              (Inl e, s1) \<Rightarrow> (Inl e, s1)
            | (Inr backupTableName, s1) \<Rightarrow> (Inr (), s1))
      else (Inr (), s)) = (o1, s1)"
    by fastforce
  have "\<exists>n1. trace s1 = trace s @ n1 \<and> list_all (\<lambda>x. protects t (statement_of x)) n1
           \<and> list_all (\<lambda>x. backup_statement (statement_of x)) n1
           \<and> (if dryRun options then n1 = [] else True)
           \<and> (case o1 of Inl e \<Rightarrow> stopped t e n1 | Inr u \<Rightarrow> clean n1)"
  proof (cases "dryRun options")
    case True
    with first show ?thesis by auto
  next
    case False
    show ?thesis
    proof (rule backupTable_cases [of d TargetPool t s])
      fix e s2 pre q m
      assume a: "backupTable d TargetPool t s = (Inl e, s2)"
        "trace s2 = trace s @ pre @ [(TargetPool, q, Some m)]" "clean pre" "backup_statement q"
        "list_all (\<lambda>x. protects t (statement_of x)) (pre @ [(TargetPool, q, Some m)])"
        "list_all (\<lambda>x. backup_statement (statement_of x)) pre"
        "e = raised_message t q m"
      have "q \<noteq> SetForeignKeyChecks True" using a(4) by auto
      then have "stopped t e (pre @ [(TargetPool, q, Some m)])"
        using a(3,7) by (simp add: stopped_append)
      moreover have "list_all (\<lambda>x. backup_statement (statement_of x)) (pre @ [(TargetPool, q, Some m)])"
        using a(4,6) by simp
      ultimately show ?thesis using a(1,2,5) first False by auto
    next
      fix b s2 new
      assume "backupTable d TargetPool t s = (Inr b, s2)" "trace s2 = trace s @ new" "clean new"
        "list_all (\<lambda>x. protects t (statement_of x)) new"
        "list_all (\<lambda>x. backup_statement (statement_of x)) new"
      with first False show ?thesis by auto
    qed
  qed
  then obtain n1 where n1: "trace s1 = trace s @ n1" "list_all (\<lambda>x. protects t (statement_of x)) n1"
    "if dryRun options then n1 = [] else True"
    "case o1 of Inl e \<Rightarrow> stopped t e n1 | Inr u \<Rightarrow> clean n1"
    and bk: "list_all (\<lambda>x. backup_statement (statement_of x)) n1" by blast
  from bk have bl: "list_all (\<lambda>x. backup_statement (statement_of x)) (butlast n1)"
    by (rule list_all_butlast)
  show ?thesis
  proof (cases o1)
    case (Inl e)
    with assms first n1 bl show ?thesis
      by (auto simp: backup_and_truncate_def)
  next
    case (Inr u)
    with n1 have c1: "clean n1" by simp
    show ?thesis
    proof (cases "truncateTarget options \<and> \<not> dryRun options")
      case False
      with assms first Inr have "out = Inr ()" "s' = s1"
        by (auto simp: backup_and_truncate_def)
      with n1 c1 bl show ?thesis by auto
    next
      case True
      show ?thesis
      proof (rule execute_cases [of d TargetPool "TruncateTable t" s1])
        fix m s2
        assume a: "execute d TargetPool (TruncateTable t) s1 = (Inl m, s2)"
          "trace s2 = trace s1 @ [(TargetPool, TruncateTable t, Some m)]"
        have "stopped t m (n1 @ [(TargetPool, TruncateTable t, Some m)])"
          using c1 by (simp add: stopped_append)
        moreover have "out = Inl m" "s' = s2"
          using assms first Inr True a(1) by (auto simp: backup_and_truncate_def)
        ultimately show ?thesis using a(2) n1 bk True
          by (intro exI [of _ "n1 @ [(TargetPool, TruncateTable t, Some m)]"]) auto
      next
        fix rows s2
        assume a: "execute d TargetPool (TruncateTable t) s1 = (Inr rows, s2)"
          "trace s2 = trace s1 @ [(TargetPool, TruncateTable t, None)]"
        have "out = Inr ()" "s' = logger_log (''Truncated target table: '' @ t) s2"
          using assms first Inr True a(1) by (auto simp: backup_and_truncate_def)
        then show ?thesis using a(2) n1 c1 bk True
          by (intro exI [of _ "n1 @ [(TargetPool, TruncateTable t, None)]"]) auto
      qed
    qed
  qed
qed

lemma insertPromises_shape:
  "insertPromises d t cols rows s = (promises, s') \<Longrightarrow>
     \<exists>new. trace s' = trace s @ new
       \<and> list_all (\<lambda>x. moves_rows t False (statement_of x)) new
       \<and> list_all (\<lambda>x. insert_statement (statement_of x)) new
       \<and> failure_messages new = rejections promises"
proof (induction rows arbitrary: s promises s')
  case Nil
  then show ?case by (simp add: failure_messages_def rejections_def)
next
  case (Cons r rows)
  let ?q = "InsertRow t cols (map (map_of r) cols)"
  obtain replies s2 reply s1 where
    e: "execute d TargetPool ?q s = (reply, s1)" and
    l: "insertPromises d t cols rows s1 = (replies, s2)"
    by (metis surj_pair)
  from Cons.IH [OF l] obtain n2 where n2: "trace s2 = trace s1 @ n2"
    "list_all (\<lambda>x. moves_rows t False (statement_of x)) n2"
    "list_all (\<lambda>x. insert_statement (statement_of x)) n2"
    "failure_messages n2 = rejections replies" by blast
  from Cons.prems e l have r: "promises = reply # replies" "s' = s2"
    by auto
  have tr: "trace s' = trace s @ (TargetPool, ?q, failure_of reply) # n2"
    using execute_trace [OF e] n2(1) r(2) by simp
  have "failure_messages ((TargetPool, ?q, failure_of reply) # n2) = rejections promises"
    using n2(4) r(1) by (auto simp: failure_messages_def rejections_def split: option.splits)
  with tr n2(2,3) show ?case
    by (intro exI [of _ "(TargetPool, ?q, failure_of reply) # n2"]) simp
qed

lemma Promise_all_None: "Promise_all d promises s = None \<longleftrightarrow> rejections promises = []"
  by (simp add: Promise_all_def split: list.splits)

lemma Promise_all_Some: "Promise_all d promises s = Some e \<Longrightarrow> e \<in> set (rejections promises)"
proof -
  assume a: "Promise_all d promises s = Some e"
  then obtain x xs where r: "rejections promises = x # xs"
    by (cases "rejections promises") (auto simp: Promise_all_def)
  with a have "e = (x # xs) ! (settles_first d (world s) mod length (x # xs))"
    by (simp add: Promise_all_def)
  moreover have "settles_first d (world s) mod length (x # xs) < length (x # xs)" by simp
  ultimately have "e \<in> set (x # xs)" using nth_mem by blast
  with r show ?thesis by simp
qed

lemma insert_rows_shape:
  assumes "insert_rows d t cols rows s = (err, s')"
  shows "\<exists>new. trace s' = trace s @ new
       \<and> list_all (\<lambda>x. moves_rows t False (statement_of x)) new
       \<and> list_all (\<lambda>x. insert_statement (statement_of x)) new
       \<and> (case err of
            None \<Rightarrow> clean new
          | Some e \<Rightarrow> e \<in> set (failure_messages new))"
proof -
  obtain promises s1 where p: "insertPromises d t cols rows s = (promises, s1)" by fastforce
  with assms have r: "Promise_all d promises s1 = err" "s' = s1"
    by (auto simp: insert_rows_def)
  from insertPromises_shape [OF p] obtain new where new: "trace s1 = trace s @ new"
    "list_all (\<lambda>x. moves_rows t False (statement_of x)) new"
    "list_all (\<lambda>x. insert_statement (statement_of x)) new"
    "failure_messages new = rejections promises" by blast
  have "case err of None \<Rightarrow> clean new | Some e \<Rightarrow> e \<in> set (failure_messages new)"
  proof (cases err)
    case None
    with r(1) have "rejections promises = []" by (simp add: Promise_all_None)
    with None new(4) show ?thesis by (simp add: failure_messages_Nil_iff)
  next
    case (Some e)
    with r(1) have "Promise_all d promises s1 = Some e" by simp
    from Promise_all_Some [OF this] Some new(4) show ?thesis by simp
  qed
  with new(1,2,3) r(2) show ?thesis by blast
qed

lemma execute_run:
  "execute d p q s = (reply, s') \<Longrightarrow> \<exists>w'. run d p q (world s) = (reply, w')"
  by (auto simp: execute_def split: prod.splits)

lemma transfer_shape:
  "transfer reads d t options cols offset result s = Some (out, result', s') \<Longrightarrow>
     \<exists>new. trace s' = trace s @ new
       \<and> list_all (\<lambda>x. moves_rows t (dryRun options) (statement_of x)) new
       \<and> (case out of
            Inl e \<Rightarrow> (\<exists>q. first_error new = Some (q, e) \<and> \<not> insert_statement q
                         \<and> raised_message t q e = e)
                     \<or> failed_chunk e new
          | Inr u \<Rightarrow> clean new)
       \<and> table result' = table result \<and> errors result' = errors result
       \<and> success result' = success result"
proof (induction reads arbitrary: offset result s)
  case 0
  then show ?case by simp
next
  case (Suc reads)
  let ?q = "SelectChunk cols t offset (chunkSize options)"
  show ?case
  proof (rule execute_cases [of d SourcePool ?q s])
    fix m s1
    assume a: "execute d SourcePool ?q s = (Inl m, s1)"
      "trace s1 = trace s @ [(SourcePool, ?q, Some m)]"
    with Suc.prems have "out = Inl m" "result' = result" "s' = s1" by auto
    with a(2) show ?thesis by auto
  next
    fix rows s1
    assume a: "execute d SourcePool ?q s = (Inr rows, s1)"
      "trace s1 = trace s @ [(SourcePool, ?q, None)]"
    show ?thesis
    proof (cases "rows = []")
      case True
      with Suc.prems a(1) have "out = Inr ()" "result' = result" "s' = s1" by auto
      with a(2) show ?thesis by auto
    next
      case False
      obtain err s2 where w:
        "(if dryRun options
          then (None, logger_log (''[Dry Run] Would migrate '' @ decimal_string (length rows)
                                   @ '' rows for table '' @ t) s1)
          else insert_rows d t cols rows s1) = (err, s2)"
        by fastforce
      have "\<exists>n2. trace s2 = trace s1 @ n2
              \<and> list_all (\<lambda>x. moves_rows t (dryRun options) (statement_of x)) n2
              \<and> (case err of
                   None \<Rightarrow> clean n2
                 | Some e \<Rightarrow> failed_chunk e n2)"
      proof (cases "dryRun options")
        case True
        with w show ?thesis by auto
      next
        case False
        with w have "insert_rows d t cols rows s1 = (err, s2)" by simp
        from insert_rows_shape [OF this] obtain n2 where n2: "trace s2 = trace s1 @ n2"
          "list_all (\<lambda>x. moves_rows t False (statement_of x)) n2"
          "list_all (\<lambda>x. insert_statement (statement_of x)) n2"
          "case err of None \<Rightarrow> clean n2 | Some e \<Rightarrow> e \<in> set (failure_messages n2)"
          by blast
        from n2(3,4) have "case err of None \<Rightarrow> clean n2 | Some e \<Rightarrow> failed_chunk e n2"
          by (cases err) (auto intro: failed_chunk_inserts)
        with n2(1,2) False show ?thesis by auto
      qed
      then obtain n2 where n2: "trace s2 = trace s1 @ n2"
        "list_all (\<lambda>x. moves_rows t (dryRun options) (statement_of x)) n2"
        "case err of None \<Rightarrow> clean n2 | Some e \<Rightarrow> failed_chunk e n2"
        by blast
      have tr2: "trace s2 = trace s @ (SourcePool, ?q, None) # n2"
        using a(2) n2(1) by simp
      show ?thesis
      proof (cases err)
        case (Some e)
        with Suc.prems a(1) False w have o: "out = Inl e" "result' = result" "s' = s2" by auto
        from Some n2(3) have "failed_chunk e ((SourcePool, ?q, None) # n2)"
          using failed_chunk_clean [of "[(SourcePool, ?q, None)]" e n2] by simp
        with o tr2 n2(2) show ?thesis
          by (intro exI [of _ "(SourcePool, ?q, None) # n2"]) simp
      next
        case None
        let ?r = "result\<lparr>rowsMigrated := rowsMigrated result + length rows\<rparr>"
        let ?s = "logger_log (''Migrated '' @ decimal_string (rowsMigrated ?r)
                                @ '' rows for table '' @ t) s2"
        from Suc.prems a(1) False w None
        have rec: "transfer reads d t options cols (offset + chunkSize options) ?r ?s
                     = Some (out, result', s')"
          by (simp add: Let_def)
        from Suc.IH [OF rec] obtain n3 where n3: "trace s' = trace ?s @ n3"
          "list_all (\<lambda>x. moves_rows t (dryRun options) (statement_of x)) n3"
          "case out of
             Inl e \<Rightarrow> (\<exists>q. first_error n3 = Some (q, e) \<and> \<not> insert_statement q
                          \<and> raised_message t q e = e)
                      \<or> failed_chunk e n3
           | Inr u \<Rightarrow> clean n3"
          "table result' = table ?r" "errors result' = errors ?r" "success result' = success ?r"
          by blast
        from None n2(3) have c2: "clean ((SourcePool, ?q, None) # n2)" by simp
        have tr3: "trace s' = trace s @ ((SourcePool, ?q, None) # n2) @ n3"
          using tr2 n3(1) by simp
        have fe: "first_error (((SourcePool, ?q, None) # n2) @ n3) = first_error n3"
          by (rule first_error_clean [OF c2])
        have fc: "failed_chunk e (((SourcePool, ?q, None) # n2) @ n3) = failed_chunk e n3" for e
          by (rule failed_chunk_clean [OF c2])
        have cl: "clean (((SourcePool, ?q, None) # n2) @ n3) = clean n3"
          using c2 by simp
        have "case out of
             Inl e \<Rightarrow> (\<exists>q. first_error (((SourcePool, ?q, None) # n2) @ n3) = Some (q, e)
                          \<and> \<not> insert_statement q \<and> raised_message t q e = e)
                      \<or> failed_chunk e (((SourcePool, ?q, None) # n2) @ n3)
           | Inr u \<Rightarrow> clean (((SourcePool, ?q, None) # n2) @ n3)"
          unfolding fe fc cl by (rule n3(3))
        moreover have "list_all (\<lambda>x. moves_rows t (dryRun options) (statement_of x))
            (((SourcePool, ?q, None) # n2) @ n3)"
          using n2(2) n3(2) by simp
        ultimately show ?thesis using tr3 n3(4,5,6) by (intro exI [of _ "((SourcePool, ?q, None) # n2) @ n3"]) simp
      qed
    qed
  qed
qed

lemma transfer_ends:
  assumes "reads_run_dry d t n" "0 < chunkSize options"
  shows "nat (int n - offset) < reads \<Longrightarrow> transfer reads d t options cols offset result s \<noteq> None"
proof (induction reads arbitrary: offset result s)
  case 0
  then show ?case by simp
next
  case (Suc reads)
  let ?q = "SelectChunk cols t offset (chunkSize options)"
  obtain reply s1 where e: "execute d SourcePool ?q s = (reply, s1)" by fastforce
  show ?case
  proof (cases reply)
    case (Inl m)
    with e show ?thesis by simp
  next
    case (Inr rows)
    show ?thesis
    proof (cases "rows = []")
      case True
      with e Inr show ?thesis by simp
    next
      case False
      from execute_run [OF e] Inr obtain w' where "run d SourcePool ?q (world s) = (Inr rows, w')"
        by blast
      with assms False have "\<not> int n \<le> offset"
        unfolding reads_run_dry_def by blast
      with assms(2) Suc.prems have "nat (int n - (offset + chunkSize options)) < reads" by linarith
      from Suc.IH [OF this] e Inr False show ?thesis
        by (auto simp: Let_def split: prod.splits option.splits)
    qed
  qed
qed

lemma source_holds_runs_dry: "source_holds d t n \<Longrightarrow> reads_run_dry d t n"
  unfolding source_holds_def reads_run_dry_def
proof (intro allI impI)
  fix w cols offset count rows w'
  assume h: "\<forall>w cols offset count rows w'.
        0 \<le> offset \<longrightarrow> 0 \<le> count \<longrightarrow>
        run d SourcePool (SelectChunk cols t offset count) w = (Inr rows, w') \<longrightarrow>
        length rows = min (nat count) (n - nat offset)"
    and o: "int n \<le> offset" and c: "0 < count"
    and r: "run d SourcePool (SelectChunk cols t offset count) w = (Inr rows, w')"
  from o have "0 \<le> offset" by linarith
  with h c r have "length rows = min (nat count) (n - nat offset)"
    by (metis less_imp_le)
  with o show "rows = []" by auto
qed

lemma transfer_counts:
  assumes "source_holds d t n" "0 < chunkSize options"
  shows "0 \<le> offset \<Longrightarrow>
         transfer reads d t options cols offset result s = Some (Inr u, result', s') \<Longrightarrow>
         rowsMigrated result' = rowsMigrated result + (n - nat offset)"
proof (induction reads arbitrary: offset result s)
  case 0
  then show ?case by simp
next
  case (Suc reads)
  let ?q = "SelectChunk cols t offset (chunkSize options)"
  obtain reply s1 where e: "execute d SourcePool ?q s = (reply, s1)" by fastforce
  from Suc.prems(2) e obtain rows where reply: "reply = Inr rows" by (cases reply) auto
  from execute_run [OF e] reply obtain w' where
    "run d SourcePool ?q (world s) = (Inr rows, w')" by blast
  with assms Suc.prems(1)
  have rows: "length rows = min (nat (chunkSize options)) (n - nat offset)"
    unfolding source_holds_def by (metis less_imp_le)
  show ?case
  proof (cases "rows = []")
    case True
    with rows assms(2) have "n - nat offset = 0" by auto
    moreover from Suc.prems(2) e reply True have "result' = result" by simp
    ultimately show ?thesis by simp
  next
    case False
    obtain err s2 where w:
      "(if dryRun options
        then (None, logger_log (''[Dry Run] Would migrate '' @ decimal_string (length rows)
                                 @ '' rows for table '' @ t) s1)
        else insert_rows d t cols rows s1) = (err, s2)"
      by fastforce
    let ?r = "result\<lparr>rowsMigrated := rowsMigrated result + length rows\<rparr>"
    let ?s = "logger_log (''Migrated '' @ decimal_string (rowsMigrated ?r)
                            @ '' rows for table '' @ t) s2"
    from Suc.prems(2) e reply False w
    have rec: "err = None \<and> transfer reads d t options cols (offset + chunkSize options) ?r ?s
                 = Some (Inr u, result', s')"
      by (cases err) (auto simp: Let_def)
    have "0 \<le> offset + chunkSize options" using Suc.prems(1) assms(2) by simp
    from Suc.IH [OF this] rec
    have "rowsMigrated result' = rowsMigrated ?r + (n - nat (offset + chunkSize options))"
      by blast
    moreover have "nat (offset + chunkSize options) = nat offset + nat (chunkSize options)"
      using Suc.prems(1) assms(2) by (simp add: nat_add_distrib)
    moreover have "min (nat (chunkSize options)) (n - nat offset)
        + (n - (nat offset + nat (chunkSize options))) = n - nat offset"
      by arith
    ultimately show ?thesis using rows by simp
  qed
qed

lemma migrateTable_try_parts:
  assumes "migrateTable_try reads d t options result s = Some (out, result', s')"
  shows "\<exists>a b c. trace s' = trace s @ a @ b @ c
     \<and> schema_entries t options a
     \<and> list_all (\<lambda>x. protects t (statement_of x)) b \<and> (if dryRun options then b = [] else True)
     \<and> list_all (\<lambda>x. backup_statement (statement_of x)) (butlast b)
     \<and> list_all (\<lambda>x. moves_rows t (dryRun options) (statement_of x)) c
     \<and> table result' = table result \<and> errors result' = errors result
     \<and> (case out of
          Inl e \<Rightarrow> success result' = success result \<and>
            ((b = [] \<and> c = [] \<and> result' = result
                \<and> (stopped t e a \<or> (clean a \<and> e = ''No common columns found for table '' @ t)))
             \<or> (clean a \<and> c = [] \<and> result' = result \<and> stopped t e b)
             \<or> (clean a \<and> clean b
                 \<and> ((\<exists>q. first_error c = Some (q, e) \<and> \<not> insert_statement q
                          \<and> raised_message t q e = e)
                    \<or> failed_chunk e c)))
        | Inr u \<Rightarrow> clean a \<and> clean b \<and> clean c \<and> success result')"
proof -
  obtain o1 s1 where p1: "compare_schemas d t options s = (o1, s1)" by fastforce
  from compare_schemas_shape [OF p1] obtain a where a: "trace s1 = trace s @ a"
    "schema_entries t options a"
    "case o1 of
       Inl e \<Rightarrow> stopped t e a \<or> (clean a \<and> e = ''No common columns found for table '' @ t)
     | Inr cols \<Rightarrow> clean a \<and> cols \<noteq> []" by blast
  show ?thesis
  proof (cases o1)
    case (Inl e)
    with assms p1 have "out = Inl e" "result' = result" "s' = s1"
      by (auto simp: migrateTable_try_def)
    with a Inl show ?thesis
      by (intro exI [of _ a] exI [of _ "[]"]) auto
  next
    case (Inr cols)
    with a(3) have ca: "clean a" by simp
    obtain o2 s2 where p2: "backup_and_truncate d t options s1 = (o2, s2)" by fastforce
    from backup_and_truncate_shape [OF p2] obtain b where b: "trace s2 = trace s1 @ b"
      "list_all (\<lambda>x. protects t (statement_of x)) b" "if dryRun options then b = [] else True"
      "case o2 of Inl e \<Rightarrow> stopped t e b | Inr u \<Rightarrow> clean b"
      "list_all (\<lambda>x. backup_statement (statement_of x)) (butlast b)" by blast
    show ?thesis
    proof (cases o2)
      case (Inl e)
      with assms p1 p2 Inr have "out = Inl e" "result' = result" "s' = s2"
        by (auto simp: migrateTable_try_def)
      with a(1,2) b Inl ca show ?thesis
        by (intro exI [of _ a] exI [of _ b] exI [of _ "[]"]) auto
    next
      case u: (Inr u)
      with b(4) have cb: "clean b" by simp
      from assms p1 p2 Inr u obtain o3 r3 s3 where
        p3: "transfer reads d t options cols 0 result s2 = Some (o3, r3, s3)"
        by (cases "transfer reads d t options cols 0 result s2")
          (auto simp: migrateTable_try_def)
      from transfer_shape [OF p3] obtain c where c: "trace s3 = trace s2 @ c"
        "list_all (\<lambda>x. moves_rows t (dryRun options) (statement_of x)) c"
        "case o3 of
           Inl e \<Rightarrow> (\<exists>q. first_error c = Some (q, e) \<and> \<not> insert_statement q
                        \<and> raised_message t q e = e)
                    \<or> failed_chunk e c
         | Inr u \<Rightarrow> clean c"
        "table r3 = table result" "errors r3 = errors result" "success r3 = success result"
        by blast
      have tr: "trace s3 = trace s @ a @ b @ c" using a(1) b(1) c(1) by simp
      show ?thesis
      proof (cases o3)
        case (Inl e)
        with assms p1 p2 p3 Inr u have "out = Inl e" "result' = r3" "s' = s3"
          by (auto simp: migrateTable_try_def)
        moreover from c(3) Inl
        have "(\<exists>q. first_error c = Some (q, e) \<and> \<not> insert_statement q \<and> raised_message t q e = e)
            \<or> failed_chunk e c" by simp
        ultimately show ?thesis
          using tr a(2) b(2,3,5) c(2,4,5,6) ca cb
          by (intro exI [of _ a] exI [of _ b] exI [of _ c]) simp
      next
        case v: (Inr v)
        with assms p1 p2 p3 Inr u have "out = Inr ()" "result' = r3\<lparr>success := True\<rparr>"
          "trace s' = trace s3"
          by (auto simp: migrateTable_try_def)
        with tr a(2) b(2,3,5) c v ca cb show ?thesis
          by (intro exI [of _ a] exI [of _ b] exI [of _ c]) auto
      qed
    qed
  qed
qed

lemma attempt_first_error:
  assumes "migrateTable_try reads d t options result s = Some (out, result', s')"
  shows "\<exists>new. trace s' = trace s @ new
     \<and> table result' = table result \<and> errors result' = errors result
     \<and> (case out of
          Inl e \<Rightarrow> success result' = success result \<and>
            (case first_error new of
               None \<Rightarrow> e = ''No common columns found for table '' @ t \<and> result' = result
             | Some (q, m) \<Rightarrow>
                 if insert_statement q then failed_chunk e new else e = raised_message t q m)
        | Inr u \<Rightarrow> first_error new = None \<and> success result')"
proof -
  from migrateTable_try_parts [OF assms] obtain a b c where p: "trace s' = trace s @ a @ b @ c"
    "table result' = table result" "errors result' = errors result"
    "case out of
          Inl e \<Rightarrow> success result' = success result \<and>
            ((b = [] \<and> c = [] \<and> result' = result
                \<and> (stopped t e a \<or> (clean a \<and> e = ''No common columns found for table '' @ t)))
             \<or> (clean a \<and> c = [] \<and> result' = result \<and> stopped t e b)
             \<or> (clean a \<and> clean b
                 \<and> ((\<exists>q. first_error c = Some (q, e) \<and> \<not> insert_statement q
                          \<and> raised_message t q e = e)
                    \<or> failed_chunk e c)))
        | Inr u \<Rightarrow> clean a \<and> clean b \<and> clean c \<and> success result'"
    and sa: "schema_entries t options a"
    and pb: "list_all (\<lambda>x. protects t (statement_of x)) b"
    by blast
  have na: "\<not> insert_statement q" if "first_error a = Some (q, m)" for q m
  proof -
    from first_error_mem [OF that] obtain pl where "(pl, q, Some m) \<in> set a" by blast
    with sa show ?thesis by (auto simp: schema_entries_def list_all_iff)
  qed
  have nb: "\<not> insert_statement q" if "first_error b = Some (q, m)" for q m
  proof -
    from first_error_mem [OF that] obtain pl where "(pl, q, Some m) \<in> set b" by blast
    with pb have "protects t q" by (auto simp: list_all_iff)
    then show ?thesis by (cases q) auto
  qed
  show ?thesis
  proof (cases out)
    case (Inr u)
    with p(4) have "clean (a @ b @ c)" by simp
    then have "first_error (a @ b @ c) = None" by (rule clean_first_error)
    with p Inr show ?thesis by (intro exI [of _ "a @ b @ c"]) simp
  next
    case (Inl e)
    with p(4) have sr: "success result' = success result" by simp
    from Inl p(4) consider
      (schema) "b = []" "c = []" "stopped t e a"
      | (none) "b = []" "c = []" "result' = result" "clean a" "e = ''No common columns found for table '' @ t"
      | (protect) "clean a" "c = []" "stopped t e b"
      | (reading) "clean a" "clean b"
          "\<exists>q. first_error c = Some (q, e) \<and> \<not> insert_statement q \<and> raised_message t q e = e"
      | (writing) "clean a" "clean b" "failed_chunk e c"
      by auto
    then have "case first_error (a @ b @ c) of
               None \<Rightarrow> e = ''No common columns found for table '' @ t \<and> result' = result
             | Some (q, m) \<Rightarrow>
                 if insert_statement q then failed_chunk e (a @ b @ c) else e = raised_message t q m"
    proof cases
      case schema
      from stopped_first_error [OF schema(3)] obtain q m where
        "first_error a = Some (q, m)" "e = raised_message t q m" by blast
      with na [OF this(1)] schema(1,2) show ?thesis by simp
    next
      case none
      then show ?thesis by (simp add: clean_first_error)
    next
      case protect
      from stopped_first_error [OF protect(3)] obtain q m where
        "first_error b = Some (q, m)" "e = raised_message t q m" by blast
      with nb [OF this(1)] protect(1,2) show ?thesis by (simp add: first_error_clean)
    next
      case reading
      then show ?thesis by (auto simp: first_error_clean)
    next
      case writing
      from failed_chunk_first_error [OF writing(3)] obtain q m where
        "first_error c = Some (q, m)" "insert_statement q" by blast
      with writing show ?thesis by (simp add: first_error_clean failed_chunk_clean)
    qed
    with p(1,2,3) Inl sr show ?thesis by (intro exI [of _ "a @ b @ c"]) simp
  qed
qed

lemma moves_rows_dry: "moves_rows t True q \<Longrightarrow> read_only q"
  by (cases q) auto

lemma attempt_dry_run_reads:
  assumes "migrateTable_try reads d t options result s = Some (out, result', s')"
    and "dryRun options"
  shows "\<exists>new. trace s' = trace s @ new \<and> list_all (\<lambda>x. read_only (statement_of x)) new"
proof -
  from migrateTable_try_parts [OF assms(1)] assms(2) obtain a c where p:
    "trace s' = trace s @ a @ c" "schema_entries t options a"
    "list_all (\<lambda>x. moves_rows t True (statement_of x)) c"
    by auto
  from p(2) assms(2) have "list_all (\<lambda>x. read_only (statement_of x)) a"
    by (auto simp: schema_entries_def list_all_iff)
  moreover from p(3) have "list_all (\<lambda>x. read_only (statement_of x)) c"
    by (auto simp: list_all_iff dest: moves_rows_dry)
  ultimately show ?thesis using p(1) by (intro exI [of _ "a @ c"]) simp
qed

lemma guarded_skip:
  "list_all (\<lambda>x. \<not> (backup_statement (statement_of x) \<and> failed x)) xs \<Longrightarrow>
     guarded (xs @ ys) = guarded ys"
  by (induction xs) auto

lemma guarded_only_enable:
  "list_all (\<lambda>x. statement_of x = SetForeignKeyChecks True) xs \<Longrightarrow> guarded xs"
  by (induction xs) auto

lemma stopped_guarded:
  "stopped t e b \<Longrightarrow> list_all (\<lambda>x. statement_of x = SetForeignKeyChecks True) rest \<Longrightarrow>
     guarded (b @ rest)"
  by (induction t e b rule: stopped.induct) (auto simp: guarded_only_enable)

lemma clean_not_failed_backup:
  "clean xs \<Longrightarrow> list_all (\<lambda>x. \<not> (backup_statement (statement_of x) \<and> failed x)) xs"
  by (auto simp: clean_def list_all_iff)

lemma schema_entries_no_backup:
  "schema_entries t options xs \<Longrightarrow> list_all (\<lambda>x. \<not> (backup_statement (statement_of x) \<and> failed x)) xs"
  by (auto simp: schema_entries_def list_all_iff)

lemma moves_rows_no_backup:
  "list_all (\<lambda>x. moves_rows t dry (statement_of x)) xs \<Longrightarrow>
     list_all (\<lambda>x. \<not> (backup_statement (statement_of x) \<and> failed x)) xs"
proof -
  have "moves_rows t dry q \<Longrightarrow> \<not> backup_statement q" for q by (cases q) auto
  then show "list_all (\<lambda>x. moves_rows t dry (statement_of x)) xs \<Longrightarrow> ?thesis"
    by (auto simp: list_all_iff)
qed

lemma attempt_guarded:
  assumes "migrateTable_try reads d t options result s = Some (out, result', s')"
    and "list_all (\<lambda>x. statement_of x = SetForeignKeyChecks True) rest"
  shows "\<exists>new. trace s' = trace s @ new \<and> guarded (new @ rest)"
proof -
  from migrateTable_try_parts [OF assms(1)] obtain a b c where p: "trace s' = trace s @ a @ b @ c"
    "schema_entries t options a"
    "list_all (\<lambda>x. moves_rows t (dryRun options) (statement_of x)) c"
    "case out of
          Inl e \<Rightarrow> success result' = success result \<and>
            ((b = [] \<and> c = [] \<and> result' = result
                \<and> (stopped t e a \<or> (clean a \<and> e = ''No common columns found for table '' @ t)))
             \<or> (clean a \<and> c = [] \<and> result' = result \<and> stopped t e b)
             \<or> (clean a \<and> clean b
                 \<and> ((\<exists>q. first_error c = Some (q, e) \<and> \<not> insert_statement q
                          \<and> raised_message t q e = e)
                    \<or> failed_chunk e c)))
        | Inr u \<Rightarrow> clean a \<and> clean b \<and> clean c \<and> success result'"
    by blast
  have rest: "guarded rest" using assms(2) by (rule guarded_only_enable)
  have c: "guarded (c @ rest) = guarded rest"
    using moves_rows_no_backup [OF p(3)] by (rule guarded_skip)
  have a: "guarded (a @ b @ c @ rest) = guarded (b @ c @ rest)"
    using schema_entries_no_backup [OF p(2)] by (rule guarded_skip)
  have "guarded (b @ c @ rest)"
  proof (cases "clean b")
    case True
    from clean_not_failed_backup [OF this] have "guarded (b @ c @ rest) = guarded (c @ rest)"
      by (rule guarded_skip)
    with c rest show ?thesis by simp
  next
    case False
    with p(4) have "c = [] \<and> stopped t (case out of Inl e \<Rightarrow> e) b"
      by (cases out) auto
    with stopped_guarded [OF _ assms(2)] show ?thesis by auto
  qed
  with a p(1) show ?thesis by (intro exI [of _ "a @ b @ c"]) simp
qed

lemma guarded_nth:
  "guarded new \<Longrightarrow> i < j \<Longrightarrow> j < length new \<Longrightarrow>
     backup_statement (statement_of (new ! i)) \<Longrightarrow> failed (new ! i) \<Longrightarrow>
     statement_of (new ! j) = SetForeignKeyChecks True"
proof (induction new arbitrary: i j)
  case Nil
  then show ?case by simp
next
  case (Cons e es)
  show ?case
  proof (cases i)
    case 0
    with Cons.prems have "list_all (\<lambda>x. statement_of x = SetForeignKeyChecks True) es" by simp
    moreover from 0 Cons.prems obtain k where "j = Suc k" "k < length es" by (cases j) auto
    ultimately show ?thesis by (auto simp: list_all_length)
  next
    case (Suc i')
    with Cons.prems obtain k where "j = Suc k" "i' < k" "k < length es" by (cases j) auto
    with Cons.IH [of i' k] Cons.prems Suc show ?thesis by auto
  qed
qed

lemma stopped_butlast: "stopped t e b \<Longrightarrow> clean (butlast b)"
  by (induction t e b rule: stopped.induct) auto

lemma attempt_untouched:
  assumes "migrateTable_try reads d t options result s = Some (out, result', s')"
    and "trace s' = trace s @ new"
    and "list_all (\<lambda>x. statement_of x = SetForeignKeyChecks True) rest"
    and "list_ex (\<lambda>x. backup_statement (statement_of x) \<and> failed x) (new @ rest)"
  shows "list_all (\<lambda>x. \<not> writes_table t (statement_of x)) (new @ rest)"
proof -
  from migrateTable_try_parts [OF assms(1)] obtain a b c where p: "trace s' = trace s @ a @ b @ c"
    "schema_entries t options a"
    "list_all (\<lambda>x. backup_statement (statement_of x)) (butlast b)"
    "list_all (\<lambda>x. moves_rows t (dryRun options) (statement_of x)) c"
    "case out of
          Inl e \<Rightarrow> success result' = success result \<and>
            ((b = [] \<and> c = [] \<and> result' = result
                \<and> (stopped t e a \<or> (clean a \<and> e = ''No common columns found for table '' @ t)))
             \<or> (clean a \<and> c = [] \<and> result' = result \<and> stopped t e b)
             \<or> (clean a \<and> clean b
                 \<and> ((\<exists>q. first_error c = Some (q, e) \<and> \<not> insert_statement q
                          \<and> raised_message t q e = e)
                    \<or> failed_chunk e c)))
        | Inr u \<Rightarrow> clean a \<and> clean b \<and> clean c \<and> success result'"
    by blast
  from p(1) assms(2) have new: "new = a @ b @ c" by simp
  have quiet: "\<not> writes_table t q" if "backup_statement q" for q
    using that by (cases q) auto
  from assms(4) obtain x where x: "x \<in> set (a @ b @ c @ rest)"
    "backup_statement (statement_of x)" "failed x"
    unfolding new by (auto simp: list_ex_iff)
  have "x \<notin> set a" using schema_entries_no_backup [OF p(2)] x(2,3) by (auto simp: list_all_iff)
  moreover have "x \<notin> set c" using moves_rows_no_backup [OF p(4)] x(2,3) by (auto simp: list_all_iff)
  moreover have "x \<notin> set rest" using assms(3) x(2) by (auto simp: list_all_iff)
  ultimately have xb: "x \<in> set b" using x(1) by auto
  with x(3) have "\<not> clean b" by (auto simp: clean_def list_all_iff)
  with p(5) xb have c: "c = []" and st: "stopped t (case out of Inl e \<Rightarrow> e) b"
    by (cases out; auto)+
  from xb have "b \<noteq> []" by auto
  then have b: "b = butlast b @ [last b]" by simp
  from stopped_butlast [OF st] x(3) have "x \<notin> set (butlast b)"
    by (auto simp: clean_def list_all_iff)
  with xb b have "x = last b" by (metis Un_iff empty_iff empty_set set_ConsD set_append)
  with x(2) p(3) have "list_all (\<lambda>x. backup_statement (statement_of x)) (butlast b @ [last b])"
    by simp
  with b have "list_all (\<lambda>x. backup_statement (statement_of x)) b"
    by simp
  then have "list_all (\<lambda>x. \<not> writes_table t (statement_of x)) b"
    using quiet by (auto simp: list_all_iff)
  moreover have "list_all (\<lambda>x. \<not> writes_table t (statement_of x)) a"
    using p(2) by (auto simp: schema_entries_def list_all_iff)
  moreover have "list_all (\<lambda>x. \<not> writes_table t (statement_of x)) rest"
    using assms(3) by (auto simp: list_all_iff)
  ultimately show ?thesis unfolding new c by simp
qed

lemma migrateTable_parts:
  assumes "migrateTable reads d t options s = Some (out, s')"
  shows "\<exists>o1 r1 s1 E.
       migrateTable_try reads d t options
         \<lparr>table = t, success = False, rowsMigrated = 0, errors = []\<rparr> s = Some (o1, r1, s1)
     \<and> out = Inr (case o1 of
                    Inl message \<Rightarrow> r1\<lparr>success := False, errors := errors r1 @ [message]\<rparr>
                  | Inr u \<Rightarrow> r1)
     \<and> trace s' = trace s1 @ E
     \<and> (if foreignKeyStrategy options = ''disable'' \<and> \<not> dryRun options
         then (\<exists>reply. E = [(TargetPool, SetForeignKeyChecks True, reply)])
         else E = [])"
proof -
  let ?r0 = "\<lparr>table = t, success = False, rowsMigrated = 0, errors = []\<rparr>"
  from assms obtain o1 r1 s1 where
    body: "migrateTable_try reads d t options ?r0 s = Some (o1, r1, s1)"
    by (cases "migrateTable_try reads d t options ?r0 s") (auto simp: migrateTable_def)
  define r2 where "r2 = (case o1 of
      Inl message \<Rightarrow> r1\<lparr>success := False, errors := errors r1 @ [message]\<rparr> | Inr u \<Rightarrow> r1)"
  define s2 where "s2 = (case o1 of
      Inl message \<Rightarrow> logger_error (''Migration failed for table '' @ t @ '': '' @ message) s1
    | Inr u \<Rightarrow> s1)"
  have mid: "(case o1 of
        Inl message \<Rightarrow>
          (r1\<lparr>success := False, errors := errors r1 @ [message]\<rparr>,
           logger_error (''Migration failed for table '' @ t @ '': '' @ message) s1)
      | Inr u \<Rightarrow> (r1, s1)) = (r2, s2)"
    unfolding r2_def s2_def by (cases o1) auto
  have t2: "trace s2 = trace s1" unfolding s2_def by (cases o1) auto
  from assms body mid have out: "out = Inr r2" by (auto simp: migrateTable_def)
  show ?thesis
  proof (cases "foreignKeyStrategy options = ''disable'' \<and> \<not> dryRun options")
    case False
    with assms body mid have "s' = s2" by (auto simp: migrateTable_def)
    with body out t2 False show ?thesis
      unfolding r2_def by (intro exI [of _ o1] exI [of _ r1] exI [of _ s1] exI [of _ "[]"]) auto
  next
    case True
    show ?thesis
    proof (rule execute_cases [of d TargetPool "SetForeignKeyChecks True" s2])
      fix m s3
      assume a: "execute d TargetPool (SetForeignKeyChecks True) s2 = (Inl m, s3)"
        "trace s3 = trace s2 @ [(TargetPool, SetForeignKeyChecks True, Some m)]"
      with assms body mid True
      have s': "s' = logger_error (''Error re-enabling foreign key checks: '' @ m) s3"
        by (auto simp: migrateTable_def enableForeignKeyChecks_def)
      with a body out t2 True show ?thesis
        unfolding r2_def
        by (intro exI [of _ o1] exI [of _ r1] exI [of _ s1]
              exI [of _ "[(TargetPool, SetForeignKeyChecks True, Some m)]"]) auto
    next
      fix rows s3
      assume a: "execute d TargetPool (SetForeignKeyChecks True) s2 = (Inr rows, s3)"
        "trace s3 = trace s2 @ [(TargetPool, SetForeignKeyChecks True, None)]"
      with assms body mid True have "s' = s3"
        by (auto simp: migrateTable_def enableForeignKeyChecks_def)
      with a body out t2 True show ?thesis
        unfolding r2_def
        by (intro exI [of _ o1] exI [of _ r1] exI [of _ s1]
              exI [of _ "[(TargetPool, SetForeignKeyChecks True, None)]"]) auto
    qed
  qed
qed

lemma migrateTable_try_ends:
  assumes "reads_run_dry d t n" "0 < chunkSize options" "n < reads"
  shows "migrateTable_try reads d t options result s \<noteq> None"
proof -
  have ends: "transfer reads d t options cols 0 result s2 \<noteq> None" for cols s2
    using transfer_ends [OF assms(1,2), of 0 reads] assms(3) by simp
  show ?thesis
    by (simp add: migrateTable_try_def ends split: prod.splits sum.splits option.splits)
qed

lemma migrateTable_returns:
  assumes "reads_run_dry d t n" "0 < chunkSize options" "n < reads"
  shows "\<exists>result s'. migrateTable reads d t options s = Some (Inr result, s')"
proof -
  from migrateTable_try_ends [OF assms] obtain o1 r1 s1 where
    "migrateTable_try reads d t options
       \<lparr>table = t, success = False, rowsMigrated = 0, errors = []\<rparr> s = Some (o1, r1, s1)"
    by (metis not_None_eq prod_cases3)
  then show ?thesis
    by (auto simp: migrateTable_def split: prod.splits)
qed

lemma first_error_enable:
  "first_error (new @ [(p, SetForeignKeyChecks True, reply)]) = first_error new"
  by (cases reply) (auto simp: first_error_append split: option.splits)

lemma migrateTable_first_error:
  assumes "migrateTable reads d t options s = Some (outcome, s')"
  shows "\<exists>result new. outcome = Inr result \<and> trace s' = trace s @ new \<and> table result = t \<and>
         (case first_error new of
            Some (q, m) \<Rightarrow> \<not> success result \<and>
              (if insert_statement q
               then \<exists>e. e \<in> set (failed_inserts new) \<and> errors result = [e]
               else errors result = [raised_message t q m])
          | None \<Rightarrow> (success result \<and> errors result = [])
                    \<or> (\<not> success result \<and> rowsMigrated result = 0
                        \<and> errors result = [''No common columns found for table '' @ t]))"
proof -
  let ?r0 = "\<lparr>table = t, success = False, rowsMigrated = 0, errors = []\<rparr>"
  from migrateTable_parts [OF assms] obtain o1 r1 s1 E where p:
    "migrateTable_try reads d t options ?r0 s = Some (o1, r1, s1)"
    "outcome = Inr (case o1 of
                    Inl message \<Rightarrow> r1\<lparr>success := False, errors := errors r1 @ [message]\<rparr>
                  | Inr u \<Rightarrow> r1)"
    "trace s' = trace s1 @ E"
    "if foreignKeyStrategy options = ''disable'' \<and> \<not> dryRun options
         then (\<exists>reply. E = [(TargetPool, SetForeignKeyChecks True, reply)]) else E = []"
    by (auto split: if_splits)
  from attempt_first_error [OF p(1)] obtain new where n0: "trace s1 = trace s @ new"
     "table r1 = table ?r0" "errors r1 = errors ?r0"
     "case o1 of
          Inl e \<Rightarrow> success r1 = success ?r0 \<and>
            (case first_error new of
               None \<Rightarrow> e = ''No common columns found for table '' @ t \<and> r1 = ?r0
             | Some (q, m) \<Rightarrow>
                 if insert_statement q then failed_chunk e new else e = raised_message t q m)
        | Inr u \<Rightarrow> first_error new = None \<and> success r1"
    by blast
  have n: "trace s1 = trace s @ new" "table r1 = t" "errors r1 = []"
    using n0(1,2,3) by simp_all
  have fe: "first_error (new @ E) = first_error new"
    using p(4) by (auto simp: first_error_enable split: if_splits)
  have E: "list_all (\<lambda>x. \<not> insert_statement (statement_of x)) E"
    using p(4) by (auto split: if_splits)
  define result where "result = (case o1 of
                    Inl message \<Rightarrow> r1\<lparr>success := False, errors := errors r1 @ [message]\<rparr>
                  | Inr u \<Rightarrow> r1)"
  have "case first_error new of
            Some (q, m) \<Rightarrow> \<not> success result \<and>
              (if insert_statement q
               then \<exists>e. e \<in> set (failed_inserts (new @ E)) \<and> errors result = [e]
               else errors result = [raised_message t q m])
          | None \<Rightarrow> (success result \<and> errors result = [])
                    \<or> (\<not> success result \<and> rowsMigrated result = 0
                        \<and> errors result = [''No common columns found for table '' @ t])"
  proof (cases o1)
    case (Inr u)
    with n0(4) n(3) show ?thesis by (simp add: result_def)
  next
    case (Inl e)
    then have r: "\<not> success result" "errors result = [e]"
      using n(3) by (simp_all add: result_def)
    show ?thesis
    proof (cases "first_error new")
      case None
      with Inl n0(4) have "e = ''No common columns found for table '' @ t" "r1 = ?r0" by simp_all
      with None r Inl show ?thesis by (simp add: result_def)
    next
      case (Some qm)
      obtain q m where qm: "qm = (q, m)" by (cases qm)
      show ?thesis
      proof (cases "insert_statement q")
        case True
        with Inl n0(4) Some qm have "failed_chunk e new" by simp
        from failed_chunk_then [OF this E] r Some qm True show ?thesis by auto
      next
        case False
        with Inl n0(4) Some qm have "e = raised_message t q m" by simp
        with r Some qm False show ?thesis by simp
      qed
    qed
  qed
  with fe have "case first_error (new @ E) of
            Some (q, m) \<Rightarrow> \<not> success result \<and>
              (if insert_statement q
               then \<exists>e. e \<in> set (failed_inserts (new @ E)) \<and> errors result = [e]
               else errors result = [raised_message t q m])
          | None \<Rightarrow> (success result \<and> errors result = [])
                    \<or> (\<not> success result \<and> rowsMigrated result = 0
                        \<and> errors result = [''No common columns found for table '' @ t])"
    by simp
  moreover have "table result = t" using n(2) by (cases o1) (simp_all add: result_def)
  moreover have "outcome = Inr result" using p(2) by (simp add: result_def)
  moreover have "trace s' = trace s @ (new @ E)" using p(3) n(1) by simp
  ultimately show ?thesis by blast
qed

lemma attempt_success_counts:
  assumes "source_holds d t n" "0 < chunkSize options"
    and "migrateTable_try reads d t options result s = Some (Inr u, result', s')"
  shows "rowsMigrated result' = rowsMigrated result + n"
proof -
  from assms(3) obtain cols s2 r3 s3 where
    "transfer reads d t options cols 0 result s2 = Some (Inr (), r3, s3)"
    "result' = r3\<lparr>success := True\<rparr>"
    by (auto simp: migrateTable_try_def split: prod.splits sum.splits option.splits)
  with transfer_counts [OF assms(1,2), of 0 reads cols result s2 "()" r3 s3]
  show ?thesis by simp
qed

lemma migrateTable_success_counts:
  assumes "source_holds d t n" "0 < chunkSize options"
    and "migrateTable reads d t options s = Some (Inr result, s')" "success result"
  shows "rowsMigrated result = n"
proof -
  let ?r0 = "\<lparr>table = t, success = False, rowsMigrated = 0, errors = []\<rparr>"
  from migrateTable_parts [OF assms(3)] obtain o1 r1 s1 where p:
    "migrateTable_try reads d t options ?r0 s = Some (o1, r1, s1)"
    "result = (case o1 of
                    Inl message \<Rightarrow> r1\<lparr>success := False, errors := errors r1 @ [message]\<rparr>
                  | Inr u \<Rightarrow> r1)"
    by auto
  with assms(4) obtain u where "o1 = Inr u" "result = r1" by (cases o1) auto
  with attempt_success_counts [OF assms(1,2), of reads ?r0 s u r1 s1] p(1) show ?thesis by simp
qed

lemma execute_enable_fails:
  "q \<noteq> SetForeignKeyChecks True \<Longrightarrow> execute (enable_fails m d) p q s = execute d p q s"
  by (simp add: execute_def enable_fails_def)

lemma clock_enable_fails [simp]: "clock (enable_fails m d) = clock d"
  by (simp add: enable_fails_def)

lemma settles_first_enable_fails [simp]: "settles_first (enable_fails m d) = settles_first d"
  by (simp add: enable_fails_def)

lemma insertPromises_enable_fails:
  "insertPromises (enable_fails m d) t cols rows s = insertPromises d t cols rows s"
  by (induction rows arbitrary: s) (simp_all add: execute_enable_fails)

lemma insert_rows_enable_fails:
  "insert_rows (enable_fails m d) t cols rows s = insert_rows d t cols rows s"
  by (simp add: insert_rows_def insertPromises_enable_fails Promise_all_def
      cong: prod.case_cong list.case_cong)

lemma transfer_enable_fails:
  "transfer reads (enable_fails m d) t options cols offset result s
     = transfer reads d t options cols offset result s"
  by (induction reads arbitrary: offset result s)
    (simp_all add: execute_enable_fails insert_rows_enable_fails Let_def
       cong: prod.case_cong sum.case_cong option.case_cong if_cong)

lemma migrateTable_try_enable_fails:
  "migrateTable_try reads (enable_fails m d) t options result s
     = migrateTable_try reads d t options result s"
  by (simp add: migrateTable_try_def compare_schemas_def backup_and_truncate_def
      getTableSchema_def disableForeignKeyChecks_def backupTable_def Let_def
      execute_enable_fails transfer_enable_fails
      cong: prod.case_cong sum.case_cong option.case_cong if_cong)

lemma migrateTable_Inr:
  "migrateTable reads d t options s = Some (outcome, s') \<Longrightarrow> \<exists>result. outcome = Inr result"
  using migrateTable_parts by blast

lemma migrate_each_append:
  "migrate_each reads d options (xs @ ys) results s =
     (case migrate_each reads d options xs results s of
        None \<Rightarrow> None
      | Some (Inl e, s1) \<Rightarrow> Some (Inl e, s1)
      | Some (Inr results1, s1) \<Rightarrow> migrate_each reads d options ys results1 s1)"
  by (induction xs arbitrary: results s) (auto split: option.splits sum.splits prod.splits)

lemma migrate_each_Inr:
  "migrate_each reads d options tables results s = Some (outcome, s') \<Longrightarrow>
     \<exists>final. outcome = Inr final"
proof (induction tables arbitrary: results s)
  case Nil
  then show ?case by auto
next
  case (Cons t tables)
  then show ?case
    by (auto split: option.splits sum.splits prod.splits dest: migrateTable_Inr)
qed

lemma map_of_replace:
  "map_of (map (\<lambda>(k, old). if k = key then (k, v) else (k, old)) xs) x =
     (if x = key \<and> key \<in> fst ` set xs then Some v else map_of xs x)"
proof (induction xs)
  case Nil
  then show ?case by simp
next
  case (Cons a xs)
  obtain k old where a: "a = (k, old)" by (cases a)
  show ?case
  proof (cases "k = key")
    case True
    with a Cons.IH show ?thesis by simp
  next
    case False
    with a Cons.IH show ?thesis by (force simp: image_iff)
  qed
qed

lemma own_obj_set:
  "map_of (own (obj_set obj key v)) x =
     (if x = key \<and> key \<noteq> ''__proto__'' then Some v else map_of (own obj) x)"
proof -
  have "map_of (own obj) key = None" if "key \<notin> fst ` set (own obj)"
    using that by (simp add: map_of_eq_None_iff)
  then show ?thesis
    by (auto simp: obj_set_def map_of_replace map_add_def split: option.splits)
qed

lemma migrate_each_keeps:
  "migrate_each reads d options tables results s = Some (Inr final, s') \<Longrightarrow> x \<notin> set tables \<Longrightarrow>
     map_of (own final) x = map_of (own results) x"
proof (induction tables arbitrary: results s)
  case Nil
  then show ?case by simp
next
  case (Cons t tables)
  from Cons.prems(1) obtain result s1 where
    "migrateTable reads d t options s = Some (Inr result, s1)"
    "migrate_each reads d options tables (obj_set results t result) s1 = Some (Inr final, s')"
    by (auto split: option.splits sum.splits prod.splits)
  with Cons.IH [of "obj_set results t result" s1] Cons.prems(2) show ?case
    by (simp add: own_obj_set)
qed

lemma migrate_each_returns:
  assumes "\<forall>x \<in> set tables. reads_run_dry d x n" "0 < chunkSize options" "n < reads"
  shows "\<exists>final s'. migrate_each reads d options tables results s = Some (Inr final, s')"
  using assms(1)
proof (induction tables arbitrary: results s)
  case Nil
  then show ?case by simp
next
  case (Cons t tables)
  then have "reads_run_dry d t n" by simp
  from migrateTable_returns [OF this assms(2,3)] obtain result s1 where
    "migrateTable reads d t options s = Some (Inr result, s1)" by blast
  moreover from Cons obtain final s' where
    "migrate_each reads d options tables (obj_set results t result) s1 = Some (Inr final, s')"
    by fastforce
  ultimately show ?case by simp
qed

subsection \<open>The schema objects\<close>

lemma own_keys_obj_set:
  "fst ` set (own (obj_set obj key v)) =
     (if key = ''__proto__'' then fst ` set (own obj) else insert key (fst ` set (own obj)))"
  by (force simp: obj_set_def image_iff split: if_splits)

lemma proto_obj_set: "key \<noteq> ''__proto__'' \<Longrightarrow> proto (obj_set obj key v) = proto obj"
  by (simp add: obj_set_def)

lemma own_keys_schema:
  "fst ` set (own (fold schema_add rows obj)) =
     fst ` set (own obj) \<union> (set (fields rows) - {''__proto__''})"
  by (induction rows arbitrary: obj)
    (auto simp: fields_def schema_add_def own_keys_obj_set split: if_splits)

lemma proto_schema:
  "''__proto__'' \<notin> set (fields rows) \<Longrightarrow> proto (fold schema_add rows obj) = proto obj"
  by (induction rows arbitrary: obj) (auto simp: fields_def schema_add_def proto_obj_set)

lemma set_obj_keys: "set (obj_keys obj) = fst ` set (own obj)"
  by (auto simp: obj_keys_def)

lemma common_columns_disjoint:
  assumes "set (fields source_rows) \<inter> set (fields target_rows) \<subseteq> set ignored"
    and "set (fields source_rows) \<inter> set object_prototype_members \<subseteq> set ignored"
    and "''__proto__'' \<notin> set (fields target_rows)"
  shows "common_columns (fold schema_add source_rows empty_object)
           (fold schema_add target_rows empty_object) ignored = []"
proof -
  have "\<not> (schema_truthy (fold schema_add target_rows empty_object) col \<and> col \<notin> set ignored)"
    if "col \<in> set (obj_keys (fold schema_add source_rows empty_object))" for col
  proof -
    from that have "col \<in> set (fields source_rows)"
      by (auto simp: set_obj_keys own_keys_schema empty_object_def)
    moreover have "proto (fold schema_add target_rows empty_object) = None"
      using assms(3) by (simp add: proto_schema empty_object_def)
    ultimately show ?thesis
      using assms(1,2)
      by (auto simp: schema_truthy_def own_keys_schema empty_object_def)
  qed
  then show ?thesis
    by (auto simp: common_columns_def filter_empty_conv)
qed

subsection \<open>More reads change nothing\<close>

text \<open>
  The number of reads only bounds the loop: a migration that returns within some number of
  reads returns the same when more are allowed.
\<close>

lemma transfer_more_reads:
  "transfer reads d t options cols offset result s = Some r \<Longrightarrow>
     transfer (reads + k) d t options cols offset result s = Some r"
proof (induction reads arbitrary: offset result s)
  case 0
  then show ?case by simp
next
  case (Suc reads)
  then show ?case
    by (auto simp: Let_def split: prod.splits sum.splits option.splits if_splits)
qed

lemma migrateTable_more_reads:
  "migrateTable reads d t options s = Some r \<Longrightarrow> migrateTable (reads + k) d t options s = Some r"
proof -
  have "migrateTable_try (reads + k) d t options result s = Some x"
    if "migrateTable_try reads d t options result s = Some x" for result x
    using that
    by (auto simp: migrateTable_try_def transfer_more_reads split: prod.splits sum.splits option.splits)
  then show "migrateTable reads d t options s = Some r \<Longrightarrow> ?thesis"
    by (auto simp: migrateTable_def split: option.splits)
qed

section \<open>The engine: the claims\<close>

text \<open>
  The examples are evaluated by rewriting with the definitions of the engine and of the
  concrete servers.
\<close>

lemmas engine_defs =
  migrateTable_def migrateTable_try_def compare_schemas_def backup_and_truncate_def
  backupTable_def getTableSchema_def disableForeignKeyChecks_def enableForeignKeyChecks_def
  execute_def failure_of_def logger_log_def logger_error_def backup_timestamp_def
  common_columns_def schema_truthy_def schema_add_def property_key_def obj_set_def obj_keys_def
  empty_object_def array_index_def digit_of_def object_prototype_members_def
  column_member_truthy_def cell_truthy_def Let_def decimal_string.simps
  insert_rows_def Promise_all_def rejections_def

lemmas demo_defs =
  stateless_def failing_def start_def defaults_def describe_row_def sample_row_def
  racing_def racing_start_def

lemma healthy_source_holds:
  assumes "\<And>cols offset count. \<not> broken SourcePool (SelectChunk cols t offset count)"
  shows "source_holds (stateless (failing broken m (healthy sc tc n))) t n"
  unfolding source_holds_def using assms by (simp add: stateless_def failing_def)

text \<open>
  C3. The claim: whatever error a collaborator raises (schema fetch, backup, truncate, chunk
  read, row write, foreign-key toggle), \<open>migrateTable\<close> returns a result and, on any error,
  the result has \<open>success = false\<close> and that error's message as a single entry of \<open>errors\<close>.
  The code at this input: every statement succeeds except the final
  \<open>SET FOREIGN_KEY_CHECKS = 1\<close>, whose error the \<open>finally\<close> block only logs; the result has
  \<open>success = true\<close> and no entry in \<open>errors\<close>.
\<close>

theorem migrateTable_reenable_error_counterexample:
  "\<exists>s'. migrateTable 5
       (stateless (failing (\<lambda>p q. q = SetForeignKeyChecks True) ''server has gone away''
          (healthy [''id'', ''name''] [''id'', ''name''] 3))) ''t'' defaults start
     = Some (Inr \<lparr>table = ''t'', success = True, rowsMigrated = 3, errors = []\<rparr>, s')
   \<and> last (trace s') = (TargetPool, SetForeignKeyChecks True, Some ''server has gone away'')"
  by (simp add: engine_defs demo_defs eval_nat_numeral)

text \<open>
  Both inserts of the first chunk fail at the racing target, the first in row order with
  \<open>slow failure\<close>. When that one is also the first to be answered, it is the error
  recorded.
\<close>

lemma first_answered_failure_is_recorded:
  "\<exists>s'. migrateTable 5 (racing 0) ''t'' defaults racing_start
     = Some (Inr \<lparr>table = ''t'', success = False, rowsMigrated = 0,
                  errors = [''slow failure'']\<rparr>, s')
   \<and> failed_inserts (trace s') = [''slow failure'', ''fast failure'']"
  by (simp add: engine_defs demo_defs eval_nat_numeral failed_inserts_def failure_messages_def)

text \<open>
  C3 as the code has it. Whenever \<open>migrateTable\<close> returns, it returns a result for the table
  and no exception. When a statement other than the final switching on of the foreign-key
  checks failed, the result has \<open>success = false\<close> and \<open>errors\<close> has a single entry. If the
  first statement that failed is not an insert, the entry is the message raised for it (the
  driver's message, wrapped by \<open>getTableSchema\<close> and \<open>backupTable\<close> for their statements). If
  it is an insert, the entry is the message of one of the failed inserts of that chunk:
  the inserts of a chunk are handed to the pool together and the error recorded is that of
  the one answered first, which need not be the first in row order. When no statement
  failed, the result is a success without errors, or the failure for want of common
  columns with no row migrated. And \<open>migrateTable\<close> does return when the reads of the source
  run dry at some \<open>n\<close>, the chunk size is positive and more than \<open>n\<close> reads are allowed.
\<close>

theorem migrateTable_returns_result_recording_the_error:
  "(\<forall>outcome s'. migrateTable reads d t options s = Some (outcome, s') \<longrightarrow>
      (\<exists>result new. outcome = Inr result \<and> trace s' = trace s @ new \<and> table result = t \<and>
         (case first_error new of
            Some (q, m) \<Rightarrow> \<not> success result \<and>
              (if insert_statement q
               then \<exists>e. e \<in> set (failed_inserts new) \<and> errors result = [e]
               else errors result = [raised_message t q m])
          | None \<Rightarrow> (success result \<and> errors result = [])
                    \<or> (\<not> success result \<and> rowsMigrated result = 0
                        \<and> errors result = [''No common columns found for table '' @ t]))))
   \<and> (reads_run_dry d t n \<and> 0 < chunkSize options \<and> n < reads \<longrightarrow>
        (\<exists>result s'. migrateTable reads d t options s = Some (Inr result, s')))"
  using migrateTable_first_error migrateTable_returns by blast

theorem migrateTable_returns_result_recording_the_error_witness:
  "reads_run_dry (racing 1) ''t'' 3
   \<and> (\<exists>result s' new. migrateTable 5 (racing 1) ''t'' defaults racing_start = Some (Inr result, s')
      \<and> trace s' = trace racing_start @ new
      \<and> first_error new
          = Some (InsertRow ''t'' [''id''] [Some (Text ''7'')], ''slow failure'')
      \<and> failed_inserts new = [''slow failure'', ''fast failure'']
      \<and> \<not> success result \<and> errors result = [''fast failure''])"
proof -
  have dry: "reads_run_dry (racing 1) ''t'' 3"
    by (auto simp: reads_run_dry_def racing_def)
  have c: "(0::int) < chunkSize defaults" "(3::nat) < 5" by (simp_all add: defaults_def)
  note inst = migrateTable_returns_result_recording_the_error
    [of 5 "racing 1" "''t''" defaults racing_start 3]
  from inst dry c obtain result s' where
    run: "migrateTable 5 (racing 1) ''t'' defaults racing_start = Some (Inr result, s')"
    by blast
  with inst obtain new where new: "trace s' = trace racing_start @ new" by blast
  have "\<exists>s'. migrateTable 5 (racing 1) ''t'' defaults racing_start
      = Some (Inr \<lparr>table = ''t'', success = False, rowsMigrated = 0,
                   errors = [''fast failure'']\<rparr>, s')
      \<and> first_error (trace s')
          = Some (InsertRow ''t'' [''id''] [Some (Text ''7'')], ''slow failure'')
      \<and> failed_inserts (trace s') = [''slow failure'', ''fast failure'']"
    by (simp add: engine_defs demo_defs eval_nat_numeral failed_inserts_def failure_messages_def)
  with run new have "first_error new
          = Some (InsertRow ''t'' [''id''] [Some (Text ''7'')], ''slow failure'')"
    "failed_inserts new = [''slow failure'', ''fast failure'']"
    "\<not> success result \<and> errors result = [''fast failure'']"
    by (auto simp: racing_start_def)
  with dry run new show ?thesis by blast
qed

text \<open>
  C4. In the loop of \<open>migrateTables\<close> over any sequence of tables, take any table \<open>t\<close> with the
  tables \<open>earlier\<close> before it and \<open>later\<close> after it. Whenever the loop returns, it returned
  from the earlier tables with results for them, whatever these are; \<open>t\<close> was then migrated
  from the state they left; the later tables were migrated after it, whatever the result
  for \<open>t\<close>; no exception ends the loop; and the result of \<open>t\<close> is in the final results
  unchanged (unless the same name comes again later and overwrites it, or the name is
  \<open>__proto__\<close>, which an object does not store as a property). And the loop does return when
  the reads of every table run dry.
\<close>

theorem migrate_each_isolates_tables:
  "(\<forall>outcome s'. migrate_each reads d options (earlier @ t # later) results s = Some (outcome, s') \<longrightarrow>
      (\<exists>results1 s1 result s2 final.
          migrate_each reads d options earlier results s = Some (Inr results1, s1)
        \<and> migrateTable reads d t options s1 = Some (Inr result, s2)
        \<and> migrate_each reads d options later (obj_set results1 t result) s2 = Some (Inr final, s')
        \<and> outcome = Inr final
        \<and> (t \<notin> set later \<and> t \<noteq> ''__proto__'' \<longrightarrow> map_of (own final) t = Some result)))
   \<and> ((\<forall>x \<in> set tables. reads_run_dry d x n) \<and> 0 < chunkSize options \<and> n < reads \<longrightarrow>
        (\<exists>final s'. migrate_each reads d options tables results s = Some (Inr final, s')))"
proof (intro conjI allI impI)
  fix outcome s'
  assume run: "migrate_each reads d options (earlier @ t # later) results s = Some (outcome, s')"
  from migrate_each_Inr [OF run] obtain final where out: "outcome = Inr final" by blast
  from run obtain o1 s1 where
    e: "migrate_each reads d options earlier results s = Some (o1, s1)"
    by (cases "migrate_each reads d options earlier results s") (auto simp: migrate_each_append)
  from migrate_each_Inr [OF e] obtain results1 where o1: "o1 = Inr results1" by blast
  from run e o1 have rest: "migrate_each reads d options (t # later) results1 s1 = Some (outcome, s')"
    by (simp add: migrate_each_append)
  then obtain o2 s2 where m: "migrateTable reads d t options s1 = Some (o2, s2)"
    by (cases "migrateTable reads d t options s1") auto
  from migrateTable_Inr [OF m] obtain result where o2: "o2 = Inr result" by blast
  from rest m o2 out
  have l: "migrate_each reads d options later (obj_set results1 t result) s2 = Some (Inr final, s')"
    by simp
  have "map_of (own final) t = Some result" if "t \<notin> set later" "t \<noteq> ''__proto__''"
    using migrate_each_keeps [OF l that(1)] that(2) by (simp add: own_obj_set)
  with e o1 m o2 l out
  show "\<exists>results1 s1 result s2 final.
          migrate_each reads d options earlier results s = Some (Inr results1, s1)
        \<and> migrateTable reads d t options s1 = Some (Inr result, s2)
        \<and> migrate_each reads d options later (obj_set results1 t result) s2 = Some (Inr final, s')
        \<and> outcome = Inr final
        \<and> (t \<notin> set later \<and> t \<noteq> ''__proto__'' \<longrightarrow> map_of (own final) t = Some result)"
    by auto
next
  assume "(\<forall>x \<in> set tables. reads_run_dry d x n) \<and> 0 < chunkSize options \<and> n < reads"
  then show "\<exists>final s'. migrate_each reads d options tables results s = Some (Inr final, s')"
    using migrate_each_returns by blast
qed

theorem migrate_each_isolates_tables_witness:
  "\<exists>final s'.
     migrate_each 5 (stateless (failing (\<lambda>p q. q = TruncateTable ''t2'') ''server has gone away''
          (healthy [''id'', ''name''] [''id'', ''name''] 3))) defaults [''t1'', ''t2'', ''t3'']
        empty_object start = Some (Inr final, s')
   \<and> own final =
       [(''t1'', \<lparr>table = ''t1'', success = True, rowsMigrated = 3, errors = []\<rparr>),
        (''t2'', \<lparr>table = ''t2'', success = False, rowsMigrated = 0,
                  errors = [''server has gone away'']\<rparr>),
        (''t3'', \<lparr>table = ''t3'', success = True, rowsMigrated = 3, errors = []\<rparr>)]
   \<and> (\<exists>results1 s1 result s2.
          migrate_each 5 (stateless (failing (\<lambda>p q. q = TruncateTable ''t2'') ''server has gone away''
              (healthy [''id'', ''name''] [''id'', ''name''] 3))) defaults [''t1'']
            empty_object start = Some (Inr results1, s1)
        \<and> migrateTable 5 (stateless (failing (\<lambda>p q. q = TruncateTable ''t2'') ''server has gone away''
              (healthy [''id'', ''name''] [''id'', ''name''] 3))) ''t2'' defaults s1
            = Some (Inr result, s2)
        \<and> \<not> success result
        \<and> migrate_each 5 (stateless (failing (\<lambda>p q. q = TruncateTable ''t2'') ''server has gone away''
              (healthy [''id'', ''name''] [''id'', ''name''] 3))) defaults [''t3'']
            (obj_set results1 ''t2'' result) s2 = Some (Inr final, s'))
   \<and> map_option fst
        (migrateTables 5 (stateless (failing (\<lambda>p q. q = TruncateTable ''t2'') ''server has gone away''
            (healthy [''id'', ''name''] [''id'', ''name''] 3))) [''t1'', ''t2'', ''t3''] defaults start)
       = Some (Inr final)"
proof -
  let ?d = "stateless (failing (\<lambda>p q. q = TruncateTable ''t2'') ''server has gone away''
          (healthy [''id'', ''name''] [''id'', ''name''] 3))"
  let ?own = "[(''t1'', \<lparr>table = ''t1'', success = True, rowsMigrated = 3, errors = []\<rparr>),
        (''t2'', \<lparr>table = ''t2'', success = False, rowsMigrated = 0,
                  errors = [''server has gone away'']\<rparr>),
        (''t3'', \<lparr>table = ''t3'', success = True, rowsMigrated = 3, errors = []\<rparr>)]"
  have dry: "\<forall>x \<in> set [''t1'', ''t2'', ''t3'']. reads_run_dry ?d x 3"
    by (intro ballI source_holds_runs_dry healthy_source_holds) simp
  have c: "(0::int) < chunkSize defaults" "(3::nat) < 5" by (simp_all add: defaults_def)
  note inst = migrate_each_isolates_tables
    [of 5 ?d defaults "[''t1'']" "''t2''" "[''t3'']" empty_object start
        "[''t1'', ''t2'', ''t3'']" 3]
  from inst dry c obtain final s' where
    run: "migrate_each 5 ?d defaults [''t1'', ''t2'', ''t3''] empty_object start = Some (Inr final, s')"
    by blast
  have ev: "map_option fst (migrate_each 5 ?d defaults [''t1'', ''t2'', ''t3''] empty_object start)
      = Some (Inr \<lparr>own = ?own, proto = None\<rparr>)"
    by (simp add: engine_defs demo_defs eval_nat_numeral)
  with run have final: "final = \<lparr>own = ?own, proto = None\<rparr>" by simp
  from run have "migrate_each 5 ?d defaults ([''t1''] @ ''t2'' # [''t3'']) empty_object start
      = Some (Inr final, s')" by simp
  with inst obtain results1 s1 result s2 where parts:
    "migrate_each 5 ?d defaults [''t1''] empty_object start = Some (Inr results1, s1)"
    "migrateTable 5 ?d ''t2'' defaults s1 = Some (Inr result, s2)"
    "migrate_each 5 ?d defaults [''t3''] (obj_set results1 ''t2'' result) s2 = Some (Inr final, s')"
    "''t2'' \<notin> set [''t3''] \<and> ''t2'' \<noteq> ''__proto__'' \<longrightarrow> map_of (own final) ''t2'' = Some result"
    by blast
  from parts(4) final have "\<not> success result" by auto
  moreover have "map_option fst (migrateTables 5 ?d [''t1'', ''t2'', ''t3''] defaults start)
      = Some (Inr final)"
    using run by (simp add: migrateTables_def end_pool_def stateless_def)
  ultimately show ?thesis using run final parts(1,2,3) by auto
qed

text \<open>
  C5. When the source holds \<open>n\<close> rows of the table throughout the migration (every read
  that is answered is answered from the same \<open>n\<close> rows) and the chunk size is positive,
  \<open>migrateTable\<close> returns, and a successful result has \<open>rowsMigrated = n\<close>. This holds
  whatever \<open>truncateTarget\<close>, \<open>ignoreColumns\<close> and the two schemas are, so in particular with
  \<open>truncateTarget = true\<close>, no ignored column and identical schemas, as in the example.
\<close>

theorem rowsMigrated_is_source_row_count:
  assumes "source_holds d t n" "0 < chunkSize options" "n < reads"
  shows "\<exists>result s'. migrateTable reads d t options s = Some (Inr result, s')
           \<and> (success result \<longrightarrow> rowsMigrated result = n)"
proof -
  from migrateTable_returns [OF source_holds_runs_dry [OF assms(1)] assms(2,3)]
  obtain result s' where run: "migrateTable reads d t options s = Some (Inr result, s')" by blast
  with migrateTable_success_counts [OF assms(1,2) run] show ?thesis by auto
qed

theorem rowsMigrated_is_source_row_count_witness:
  "source_holds (stateless (healthy [''id'', ''name''] [''id'', ''name''] 5)) ''t'' 5
   \<and> truncateTarget defaults \<and> ignoreColumns defaults = [] \<and> (0::int) < chunkSize defaults
   \<and> (\<exists>s'. migrateTable 6 (stateless (healthy [''id'', ''name''] [''id'', ''name''] 5)) ''t''
            defaults start
          = Some (Inr \<lparr>table = ''t'', success = True, rowsMigrated = 5, errors = []\<rparr>, s'))"
proof -
  let ?d = "stateless (healthy [''id'', ''name''] [''id'', ''name''] 5)"
  have "source_holds (stateless (failing (\<lambda>p q. False) [] (healthy [''id'', ''name''] [''id'', ''name''] 5))) ''t'' 5"
    by (rule healthy_source_holds) simp
  moreover have "failing (\<lambda>p q. False) [] (healthy [''id'', ''name''] [''id'', ''name''] 5)
      = healthy [''id'', ''name''] [''id'', ''name''] 5"
    by (intro ext) (simp add: failing_def)
  ultimately have h: "source_holds ?d ''t'' 5" by simp
  have c: "(0::int) < chunkSize defaults" "(5::nat) < 6" by (simp_all add: defaults_def)
  from rowsMigrated_is_source_row_count [OF h c, of start]
  obtain result s' where run: "migrateTable 6 ?d ''t'' defaults start = Some (Inr result, s')"
    "success result \<longrightarrow> rowsMigrated result = 5" by blast
  have "map_option fst (migrateTable 6 ?d ''t'' defaults start)
      = Some (Inr \<lparr>table = ''t'', success = True, rowsMigrated = 5, errors = []\<rparr>)"
    by (simp add: engine_defs demo_defs eval_nat_numeral)
  with run h c show ?thesis by (auto simp: defaults_def)
qed

text \<open>
  C6. With \<open>dryRun = true\<close>, every statement \<open>migrateTable\<close> issues is a \<open>DESCRIBE\<close> or a
  \<open>SELECT\<close>: no backup table is created, nothing is truncated, the foreign-key checks are
  not toggled and no row is written. And when the source holds \<open>n\<close> rows of the table
  throughout, \<open>migrateTable\<close> returns and a successful result has \<open>rowsMigrated = n\<close>.
\<close>

theorem dryRun_only_reads_and_counts:
  assumes "dryRun options"
  shows "(\<forall>outcome s'. migrateTable reads d t options s = Some (outcome, s') \<longrightarrow>
           (\<exists>new. trace s' = trace s @ new \<and> list_all (\<lambda>x. read_only (statement_of x)) new))
       \<and> (source_holds d t n \<and> 0 < chunkSize options \<and> n < reads \<longrightarrow>
           (\<exists>result s'. migrateTable reads d t options s = Some (Inr result, s')
              \<and> (success result \<longrightarrow> rowsMigrated result = n)))"
proof (intro conjI allI impI)
  fix outcome s'
  assume run: "migrateTable reads d t options s = Some (outcome, s')"
  from migrateTable_parts [OF run] assms obtain o1 r1 s1 where p:
    "migrateTable_try reads d t options
       \<lparr>table = t, success = False, rowsMigrated = 0, errors = []\<rparr> s = Some (o1, r1, s1)"
    "trace s' = trace s1"
    by auto
  from attempt_dry_run_reads [OF p(1) assms] p(2)
  show "\<exists>new. trace s' = trace s @ new \<and> list_all (\<lambda>x. read_only (statement_of x)) new"
    by simp
next
  assume "source_holds d t n \<and> 0 < chunkSize options \<and> n < reads"
  then have h: "source_holds d t n" "0 < chunkSize options" "n < reads" by simp_all
  from migrateTable_returns [OF source_holds_runs_dry [OF h(1)] h(2,3)]
  obtain result s' where run: "migrateTable reads d t options s = Some (Inr result, s')" by blast
  with migrateTable_success_counts [OF h(1,2) run]
  show "\<exists>result s'. migrateTable reads d t options s = Some (Inr result, s')
              \<and> (success result \<longrightarrow> rowsMigrated result = n)" by auto
qed

theorem dryRun_only_reads_and_counts_witness:
  "dryRun (defaults\<lparr>dryRun := True\<rparr>)
   \<and> source_holds (stateless (healthy [''id'', ''name''] [''id'', ''name''] 5)) ''t'' 5
   \<and> (\<exists>s'. migrateTable 6 (stateless (healthy [''id'', ''name''] [''id'', ''name''] 5)) ''t''
            (defaults\<lparr>dryRun := True\<rparr>) start
          = Some (Inr \<lparr>table = ''t'', success = True, rowsMigrated = 5, errors = []\<rparr>, s')
        \<and> list_all (\<lambda>x. read_only (statement_of x)) (trace s'))"
proof -
  let ?d = "stateless (healthy [''id'', ''name''] [''id'', ''name''] 5)"
  let ?o = "defaults\<lparr>dryRun := True\<rparr>"
  have "source_holds (stateless (failing (\<lambda>p q. False) [] (healthy [''id'', ''name''] [''id'', ''name''] 5))) ''t'' 5"
    by (rule healthy_source_holds) simp
  moreover have "failing (\<lambda>p q. False) [] (healthy [''id'', ''name''] [''id'', ''name''] 5)
      = healthy [''id'', ''name''] [''id'', ''name''] 5"
    by (intro ext) (simp add: failing_def)
  ultimately have h: "source_holds ?d ''t'' 5" by simp
  have dry: "dryRun ?o" by simp
  have c: "(0::int) < chunkSize ?o" "(5::nat) < 6" by (simp_all add: defaults_def)
  note inst = dryRun_only_reads_and_counts [OF dry, of 6 ?d "''t''" start 5]
  from inst h c obtain result s' where run: "migrateTable 6 ?d ''t'' ?o start = Some (Inr result, s')"
    "success result \<longrightarrow> rowsMigrated result = 5" by blast
  from inst run(1) obtain new where new: "trace s' = trace start @ new"
    "list_all (\<lambda>x. read_only (statement_of x)) new" by blast
  have "map_option fst (migrateTable 6 ?d ''t'' ?o start)
      = Some (Inr \<lparr>table = ''t'', success = True, rowsMigrated = 5, errors = []\<rparr>)"
    by (simp add: engine_defs demo_defs eval_nat_numeral)
  with run new h dry show ?thesis by (auto simp: start_def)
qed

text \<open>
  When the schemas are read without error, no column name is in both (ignored columns
  apart), no column of the source bears a name that every object inherits and no column of
  the target is called \<open>__proto__\<close>, the migration stops as intended: the result is the
  failure for want of common columns with no row migrated, and nothing was issued but the
  \<open>DESCRIBE\<close>s and the toggles of the foreign-key checks.
\<close>

lemma disjoint_columns_stop_the_migration:
  assumes off: "\<And>w. \<exists>rows w'. run d TargetPool (SetForeignKeyChecks False) w = (Inr rows, w')"
    and src: "\<And>w. \<exists>w'. run d SourcePool (Describe t) w = (Inr source_rows, w')"
    and tgt: "\<And>w. \<exists>w'. run d TargetPool (Describe t) w = (Inr target_rows, w')"
    and disjoint: "set (fields source_rows) \<inter> set (fields target_rows) \<subseteq> set (ignoreColumns options)"
    and plain: "set (fields source_rows) \<inter> set object_prototype_members \<subseteq> set (ignoreColumns options)"
      "''__proto__'' \<notin> set (fields target_rows)"
  shows "\<exists>s' new. migrateTable reads d t options s
             = Some (Inr \<lparr>table = t, success = False, rowsMigrated = 0,
                          errors = [''No common columns found for table '' @ t]\<rparr>, s')
           \<and> trace s' = trace s @ new
           \<and> list_all (\<lambda>x. statement_of x = Describe t
                        \<or> (\<exists>b. statement_of x = SetForeignKeyChecks b)) new"
proof -
  let ?r0 = "\<lparr>table = t, success = False, rowsMigrated = 0, errors = []\<rparr>"
  let ?e = "''No common columns found for table '' @ t"
  obtain o1 s1 where first:
    "(if foreignKeyStrategy options = ''disable'' \<and> \<not> dryRun options
      then disableForeignKeyChecks d TargetPool s else (Inr (), s)) = (o1, s1)"
    by fastforce
  have o1: "o1 = Inr ()"
    using first off [of "world s"]
    by (auto simp: disableForeignKeyChecks_def execute_def split: if_splits prod.splits)
  obtain s2 where s2:
    "getTableSchema d SourcePool t s1 = (Inr (fold schema_add source_rows empty_object), s2)"
    using src [of "world s1"] by (auto simp: getTableSchema_def execute_def)
  obtain s3 where s3:
    "getTableSchema d TargetPool t s2 = (Inr (fold schema_add target_rows empty_object), s3)"
    using tgt [of "world s2"] by (auto simp: getTableSchema_def execute_def)
  have cmp: "compare_schemas d t options s = (Inl ?e, s3)"
    using first o1 s2 s3 common_columns_disjoint [OF disjoint plain]
    by (simp add: compare_schemas_def)
  from compare_schemas_shape [OF cmp] obtain a where a: "trace s3 = trace s @ a"
    "schema_entries t options a" by blast
  have body: "migrateTable_try reads d t options ?r0 s = Some (Inl ?e, ?r0, s3)"
    using cmp by (simp add: migrateTable_try_def)
  then obtain s' where run: "migrateTable reads d t options s
      = Some (Inr (?r0\<lparr>success := False, errors := errors ?r0 @ [?e]\<rparr>), s')"
    by (simp add: migrateTable_def)
  from migrateTable_parts [OF run] body obtain E where E: "trace s' = trace s3 @ E"
    "if foreignKeyStrategy options = ''disable'' \<and> \<not> dryRun options
         then (\<exists>reply. E = [(TargetPool, SetForeignKeyChecks True, reply)]) else E = []"
    by auto
  have "list_all (\<lambda>x. statement_of x = Describe t \<or> (\<exists>b. statement_of x = SetForeignKeyChecks b)) (a @ E)"
    using a(2) E(2) by (auto simp: schema_entries_def list_all_iff split: if_splits)
  moreover have "trace s' = trace s @ (a @ E)" using a(1) E(1) by simp
  ultimately show ?thesis using run by auto
qed

text \<open>
  C7. The claim: when no column name is in both schemas (ignored columns apart), the
  migration fails with the "No common columns" message, no row migrated, and without
  backup, truncate or transfer. The code at this input: the only column of the source
  table is called \<open>constructor\<close>, the only column of the target table \<open>id\<close>. The filter tests
  \<open>targetSchema[col]\<close> for truthiness, and \<open>targetSchema["constructor"]\<close> is the function every
  object inherits from \<open>Object.prototype\<close>: the column passes, the list of common columns is
  not empty, the target is backed up and truncated, and the migration fails only at the
  first insert, with the server's message.
\<close>

theorem inherited_column_name_passes_the_filter:
  "common_columns (fold schema_add [describe_row ''constructor''] empty_object)
       (fold schema_add [describe_row ''id''] empty_object) [] = [''constructor'']
   \<and> (\<exists>s'. migrateTable 5
         (stateless (failing (\<lambda>p q. case q of InsertRow t cols vals \<Rightarrow> True | _ \<Rightarrow> False)
            ''Unknown column constructor in field list''
            (healthy [''constructor''] [''id''] 3))) ''t'' defaults start
        = Some (Inr \<lparr>table = ''t'', success = False, rowsMigrated = 0,
                     errors = [''Unknown column constructor in field list'']\<rparr>, s')
      \<and> trace s' =
         [(TargetPool, SetForeignKeyChecks False, None),
          (SourcePool, Describe ''t'', None),
          (TargetPool, Describe ''t'', None),
          (TargetPool, CreateTableLike ''t_backup_20240115T103000'' ''t'', None),
          (TargetPool, InsertSelectAll ''t_backup_20240115T103000'' ''t'', None),
          (TargetPool, TruncateTable ''t'', None),
          (SourcePool, SelectChunk [''constructor''] ''t'' 0 2, None),
          (TargetPool, InsertRow ''t'' [''constructor''] [Some (Text ''7'')],
             Some ''Unknown column constructor in field list''),
          (TargetPool, InsertRow ''t'' [''constructor''] [Some (Text ''7'')],
             Some ''Unknown column constructor in field list''),
          (TargetPool, SetForeignKeyChecks True, None)])"
  by (simp add: engine_defs demo_defs eval_nat_numeral)

text \<open>
  C8. Among the statements one call of \<open>migrateTable\<close> issues, a statement of the backup
  (\<open>CREATE TABLE ... LIKE\<close> or \<open>INSERT INTO ... SELECT\<close>) that failed is followed by nothing but
  the switching on of the foreign-key checks: no \<open>TRUNCATE\<close> of the table, no \<open>INSERT\<close> into
  it and no read of the source comes after it. And when a statement of the backup failed,
  no statement of the whole call, before or after it, is a \<open>TRUNCATE\<close> of the table or an
  \<open>INSERT\<close> into it: the call leaves the rows of the target table as they were.
\<close>

theorem no_table_write_after_failed_backup:
  assumes "migrateTable reads d t options s = Some (outcome, s')"
  shows "\<exists>new. trace s' = trace s @ new \<and>
           (\<forall>i j. i < j \<and> j < length new
                \<and> backup_statement (statement_of (new ! i)) \<and> failed (new ! i)
              \<longrightarrow> statement_of (new ! j) = SetForeignKeyChecks True
                  \<and> \<not> writes_table t (statement_of (new ! j)))
           \<and> (list_ex (\<lambda>x. backup_statement (statement_of x) \<and> failed x) new
              \<longrightarrow> list_all (\<lambda>x. \<not> writes_table t (statement_of x)) new)"
proof -
  from migrateTable_parts [OF assms] obtain o1 r1 s1 E where p:
    "migrateTable_try reads d t options
       \<lparr>table = t, success = False, rowsMigrated = 0, errors = []\<rparr> s = Some (o1, r1, s1)"
    "trace s' = trace s1 @ E"
    "if foreignKeyStrategy options = ''disable'' \<and> \<not> dryRun options
         then (\<exists>reply. E = [(TargetPool, SetForeignKeyChecks True, reply)]) else E = []"
    by blast
  from p(3) have E: "list_all (\<lambda>x. statement_of x = SetForeignKeyChecks True) E"
    by (auto split: if_splits)
  from attempt_guarded [OF p(1) E] obtain new where new: "trace s1 = trace s @ new"
    "guarded (new @ E)" by blast
  from new(1) p(2) have tr: "trace s' = trace s @ (new @ E)" by simp
  have "statement_of ((new @ E) ! j) = SetForeignKeyChecks True
      \<and> \<not> writes_table t (statement_of ((new @ E) ! j))"
    if "i < j" "j < length (new @ E)" "backup_statement (statement_of ((new @ E) ! i))"
      "failed ((new @ E) ! i)" for i j
    using guarded_nth [OF new(2) that] by simp
  moreover have "list_all (\<lambda>x. \<not> writes_table t (statement_of x)) (new @ E)"
    if "list_ex (\<lambda>x. backup_statement (statement_of x) \<and> failed x) (new @ E)"
    using attempt_untouched [OF p(1) new(1) E that] .
  ultimately show ?thesis using tr by blast
qed

theorem no_table_write_after_failed_backup_witness:
  "\<exists>s'. migrateTable 0
       (stateless (failing (\<lambda>p q. q = InsertSelectAll ''t_backup_20240115T103000'' ''t'') ''disk full''
          (healthy [''id'', ''name''] [''id'', ''name''] 3))) ''t'' defaults start
     = Some (Inr \<lparr>table = ''t'', success = False, rowsMigrated = 0,
                  errors = [''Error creating backup for table t: disk full'']\<rparr>, s')
   \<and> trace s' =
       [(TargetPool, SetForeignKeyChecks False, None),
        (SourcePool, Describe ''t'', None),
        (TargetPool, Describe ''t'', None),
        (TargetPool, CreateTableLike ''t_backup_20240115T103000'' ''t'', None),
        (TargetPool, InsertSelectAll ''t_backup_20240115T103000'' ''t'', Some ''disk full''),
        (TargetPool, SetForeignKeyChecks True, None)]
   \<and> list_ex (\<lambda>x. backup_statement (statement_of x) \<and> failed x) (trace s')
   \<and> list_all (\<lambda>x. \<not> writes_table ''t'' (statement_of x)) (trace s')
   \<and> (\<forall>i j. i < j \<and> j < length (trace s')
          \<and> backup_statement (statement_of (trace s' ! i)) \<and> failed (trace s' ! i)
        \<longrightarrow> statement_of (trace s' ! j) = SetForeignKeyChecks True
            \<and> \<not> writes_table ''t'' (statement_of (trace s' ! j)))"
proof -
  let ?d = "stateless (failing (\<lambda>p q. q = InsertSelectAll ''t_backup_20240115T103000'' ''t'') ''disk full''
          (healthy [''id'', ''name''] [''id'', ''name''] 3))"
  have "\<exists>s'. migrateTable 0 ?d ''t'' defaults start
     = Some (Inr \<lparr>table = ''t'', success = False, rowsMigrated = 0,
                  errors = [''Error creating backup for table t: disk full'']\<rparr>, s')
   \<and> trace s' =
       [(TargetPool, SetForeignKeyChecks False, None),
        (SourcePool, Describe ''t'', None),
        (TargetPool, Describe ''t'', None),
        (TargetPool, CreateTableLike ''t_backup_20240115T103000'' ''t'', None),
        (TargetPool, InsertSelectAll ''t_backup_20240115T103000'' ''t'', Some ''disk full''),
        (TargetPool, SetForeignKeyChecks True, None)]"
    by (simp add: engine_defs demo_defs)
  then obtain s' where run: "migrateTable 0 ?d ''t'' defaults start
     = Some (Inr \<lparr>table = ''t'', success = False, rowsMigrated = 0,
                  errors = [''Error creating backup for table t: disk full'']\<rparr>, s')"
   and tr: "trace s' =
       [(TargetPool, SetForeignKeyChecks False, None),
        (SourcePool, Describe ''t'', None),
        (TargetPool, Describe ''t'', None),
        (TargetPool, CreateTableLike ''t_backup_20240115T103000'' ''t'', None),
        (TargetPool, InsertSelectAll ''t_backup_20240115T103000'' ''t'', Some ''disk full''),
        (TargetPool, SetForeignKeyChecks True, None)]"
    by blast
  from tr have ex: "list_ex (\<lambda>x. backup_statement (statement_of x) \<and> failed x) (trace s')"
    by simp
  from no_table_write_after_failed_backup [OF run] obtain new where
    "trace s' = trace start @ new"
    "\<forall>i j. i < j \<and> j < length new
          \<and> backup_statement (statement_of (new ! i)) \<and> failed (new ! i)
        \<longrightarrow> statement_of (new ! j) = SetForeignKeyChecks True
            \<and> \<not> writes_table ''t'' (statement_of (new ! j))"
    "list_ex (\<lambda>x. backup_statement (statement_of x) \<and> failed x) new
       \<longrightarrow> list_all (\<lambda>x. \<not> writes_table ''t'' (statement_of x)) new"
    by blast
  then have "\<forall>i j. i < j \<and> j < length (trace s')
          \<and> backup_statement (statement_of (trace s' ! i)) \<and> failed (trace s' ! i)
        \<longrightarrow> statement_of (trace s' ! j) = SetForeignKeyChecks True
            \<and> \<not> writes_table ''t'' (statement_of (trace s' ! j))"
    "list_ex (\<lambda>x. backup_statement (statement_of x) \<and> failed x) (trace s')
       \<longrightarrow> list_all (\<lambda>x. \<not> writes_table ''t'' (statement_of x)) (trace s')"
    by (simp_all add: start_def)
  with run tr ex show ?thesis by blast
qed

text \<open>
  C9. With \<open>foreignKeyStrategy = "disable"\<close> and \<open>dryRun = false\<close>, whenever \<open>migrateTable\<close>
  returns, whether the migration succeeded or failed, the last statement it issued is
  \<open>SET FOREIGN_KEY_CHECKS = 1\<close> on the target; it returns a result, not an exception; and
  were that last statement to fail, with any message, \<open>migrateTable\<close> would return the very
  same result, the failure being written to the error log.
\<close>

theorem enable_attempted_failure_only_logged:
  assumes "foreignKeyStrategy options = ''disable''" "\<not> dryRun options"
    and "migrateTable reads d t options s = Some (outcome, s')"
  shows "(\<exists>earlier reply. trace s' = trace s @ earlier @ [(TargetPool, SetForeignKeyChecks True, reply)])
       \<and> (\<exists>result. outcome = Inr result)
       \<and> (\<forall>message. \<exists>s''. migrateTable reads (enable_fails message d) t options s = Some (outcome, s'')
             \<and> last (trace s'') = (TargetPool, SetForeignKeyChecks True, Some message)
             \<and> last (console s'') = Err (''Error re-enabling foreign key checks: '' @ message))"
proof (intro conjI allI)
  let ?r0 = "\<lparr>table = t, success = False, rowsMigrated = 0, errors = []\<rparr>"
  from migrateTable_parts [OF assms(3)] assms(1,2) obtain o1 r1 s1 reply where p:
    "migrateTable_try reads d t options ?r0 s = Some (o1, r1, s1)"
    "outcome = Inr (case o1 of
                    Inl message \<Rightarrow> r1\<lparr>success := False, errors := errors r1 @ [message]\<rparr>
                  | Inr u \<Rightarrow> r1)"
    "trace s' = trace s1 @ [(TargetPool, SetForeignKeyChecks True, reply)]"
    by auto
  from migrateTable_try_parts [OF p(1)] obtain a b c where "trace s1 = trace s @ a @ b @ c"
    by blast
  with p(3) have "trace s' = trace s @ (a @ b @ c) @ [(TargetPool, SetForeignKeyChecks True, reply)]"
    by simp
  then show "\<exists>earlier reply. trace s' = trace s @ earlier @ [(TargetPool, SetForeignKeyChecks True, reply)]"
    by blast
  from p(2) show "\<exists>result. outcome = Inr result" by blast
  fix message
  have "migrateTable_try reads (enable_fails message d) t options ?r0 s = Some (o1, r1, s1)"
    using p(1) by (simp add: migrateTable_try_enable_fails)
  with p(2) assms(1,2)
  show "\<exists>s''. migrateTable reads (enable_fails message d) t options s = Some (outcome, s'')
             \<and> last (trace s'') = (TargetPool, SetForeignKeyChecks True, Some message)
             \<and> last (console s'') = Err (''Error re-enabling foreign key checks: '' @ message)"
    by (cases o1)
      (simp_all add: migrateTable_def enableForeignKeyChecks_def execute_def enable_fails_def
        failure_of_def logger_error_def split: prod.splits)
qed

theorem enable_attempted_failure_only_logged_witness:
  "foreignKeyStrategy defaults = ''disable'' \<and> \<not> dryRun defaults
   \<and> (\<exists>s' s''.
        migrateTable 5 (stateless (failing (\<lambda>p q. q = TruncateTable ''t'') ''lock wait timeout''
           (healthy [''id'', ''name''] [''id'', ''name''] 3))) ''t'' defaults start
          = Some (Inr \<lparr>table = ''t'', success = False, rowsMigrated = 0,
                       errors = [''lock wait timeout'']\<rparr>, s')
      \<and> last (trace s') = (TargetPool, SetForeignKeyChecks True, None)
      \<and> migrateTable 5 (enable_fails ''server has gone away''
           (stateless (failing (\<lambda>p q. q = TruncateTable ''t'') ''lock wait timeout''
              (healthy [''id'', ''name''] [''id'', ''name''] 3)))) ''t'' defaults start
          = Some (Inr \<lparr>table = ''t'', success = False, rowsMigrated = 0,
                       errors = [''lock wait timeout'']\<rparr>, s'')
      \<and> last (trace s'') = (TargetPool, SetForeignKeyChecks True, Some ''server has gone away'')
      \<and> last (console s'') = Err ''Error re-enabling foreign key checks: server has gone away'')"
proof -
  let ?d = "stateless (failing (\<lambda>p q. q = TruncateTable ''t'') ''lock wait timeout''
           (healthy [''id'', ''name''] [''id'', ''name''] 3))"
  let ?r = "\<lparr>table = ''t'', success = False, rowsMigrated = 0, errors = [''lock wait timeout'']\<rparr>"
  have h: "foreignKeyStrategy defaults = ''disable''" "\<not> dryRun defaults"
    by (simp_all add: defaults_def)
  have "\<exists>s'. migrateTable 5 ?d ''t'' defaults start = Some (Inr ?r, s')
      \<and> last (trace s') = (TargetPool, SetForeignKeyChecks True, None)"
    by (simp add: engine_defs demo_defs eval_nat_numeral)
  then obtain s' where run: "migrateTable 5 ?d ''t'' defaults start = Some (Inr ?r, s')"
    "last (trace s') = (TargetPool, SetForeignKeyChecks True, None)" by blast
  from enable_attempted_failure_only_logged [OF h run(1)]
  obtain s'' where "migrateTable 5 (enable_fails ''server has gone away'' ?d) ''t'' defaults start
      = Some (Inr ?r, s'')"
    "last (trace s'') = (TargetPool, SetForeignKeyChecks True, Some ''server has gone away'')"
    "last (console s'') = Err (''Error re-enabling foreign key checks: '' @ ''server has gone away'')"
    by blast
  with h run show ?thesis by auto
qed

end
